theory Spec2Isabelle
  imports Main
begin

unbundle bit_operations_syntax

section \<open>LRU replacer (buffer/lru_replacer.cpp)\<close>

text \<open>
  The replacer keeps a \<open>std::list\<close> of values, most recently inserted at the front, and a
  \<open>std::map\<close> from each value to the list node that holds it. A list node is identified
  here by the value it holds: the map is its key set, and erasing the node the map records
  for a value erases the earlier occurrence of that value.
\<close>

record 'a LRUReplacer =
  lru_list :: "'a list"
  lru_map :: "'a set"

definition LRU_new :: "'a LRUReplacer" where
  "LRU_new = \<lparr>lru_list = [], lru_map = {}\<rparr>"

text \<open>
  \<open>Insert\<close>: look the value up, push it to the front, erase the old node when the lookup
  found one, record the new front node in the map.
\<close>

definition LRU_Insert :: "'a \<Rightarrow> 'a LRUReplacer \<Rightarrow> 'a LRUReplacer" where
  "LRU_Insert v r =
     (let found = (v \<in> lru_map r);
          pushed = v # lru_list r;
          erased = (if found then v # remove1 v (lru_list r) else pushed)
      in \<lparr>lru_list = erased, lru_map = insert v (lru_map r)\<rparr>)"

text \<open>\<open>Victim\<close>: fail on the empty list, otherwise pop the back of the list.\<close>

definition LRU_Victim :: "'a LRUReplacer \<Rightarrow> 'a option \<times> 'a LRUReplacer" where
  "LRU_Victim r =
     (if lru_list r = [] then (None, r)
      else (let v = last (lru_list r)
            in (Some v, \<lparr>lru_list = butlast (lru_list r), lru_map = lru_map r - {v}\<rparr>)))"

definition LRU_Erase :: "'a \<Rightarrow> 'a LRUReplacer \<Rightarrow> bool \<times> 'a LRUReplacer" where
  "LRU_Erase v r =
     (if v \<notin> lru_map r then (False, r)
      else (True, \<lparr>lru_list = remove1 v (lru_list r), lru_map = lru_map r - {v}\<rparr>))"

definition LRU_Size :: "'a LRUReplacer \<Rightarrow> nat" where
  "LRU_Size r = length (lru_list r)"

text \<open>Sequences of operations, run from the empty replacer.\<close>

datatype 'a lru_op = OpInsert 'a | OpVictim | OpErase 'a

fun lru_step :: "'a LRUReplacer \<Rightarrow> 'a lru_op \<Rightarrow> 'a LRUReplacer" where
  "lru_step r (OpInsert v) = LRU_Insert v r"
| "lru_step r OpVictim = snd (LRU_Victim r)"
| "lru_step r (OpErase v) = snd (LRU_Erase v r)"

definition lru_run :: "'a lru_op list \<Rightarrow> 'a LRUReplacer" where
  "lru_run ops = foldl lru_step LRU_new ops"

text \<open>
  The time of the last insert, as the contract words it: operation number \<open>t\<close> stamps the
  value it inserts with \<open>t\<close>; a value that leaves the replacer (returned by \<open>Victim\<close> or
  erased) loses its stamp. The stamps only observe the run; they are not read by the
  replacer.
\<close>

fun stamp_step ::
  "'a LRUReplacer \<times> ('a \<rightharpoonup> nat) \<times> nat \<Rightarrow> 'a lru_op \<Rightarrow> 'a LRUReplacer \<times> ('a \<rightharpoonup> nat) \<times> nat"
where
  "stamp_step (r, st, t) (OpInsert v) = (LRU_Insert v r, st(v \<mapsto> t), Suc t)"
| "stamp_step (r, st, t) OpVictim =
     (case LRU_Victim r of
        (None, r') \<Rightarrow> (r', st, Suc t)
      | (Some v, r') \<Rightarrow> (r', st(v := None), Suc t))"
| "stamp_step (r, st, t) (OpErase v) = (snd (LRU_Erase v r), st(v := None), Suc t)"

definition stamp_run :: "'a lru_op list \<Rightarrow> 'a LRUReplacer \<times> ('a \<rightharpoonup> nat) \<times> nat" where
  "stamp_run ops = foldl stamp_step (LRU_new, Map.empty, 0) ops"

text \<open>
  What every reachable replacer satisfies: the list holds each live value once, the map
  knows exactly the listed values, exactly the listed values carry a stamp, every stamp is
  in the past, and the list is ordered from the newest stamp to the oldest.
\<close>

definition lru_inv :: "'a LRUReplacer \<times> ('a \<rightharpoonup> nat) \<times> nat \<Rightarrow> bool" where
  "lru_inv c =
     (case c of (r, st, t) \<Rightarrow>
        distinct (lru_list r) \<and> lru_map r = set (lru_list r) \<and> dom st = set (lru_list r) \<and>
        (\<forall>x n. st x = Some n \<longrightarrow> n < t) \<and>
        sorted_wrt (\<lambda>a b. the (st b) < the (st a)) (lru_list r))"

section \<open>Extendible hash table (hash/extendible_hash.h, hash/extendible_hash.cpp)\<close>

text \<open>
  Faults of the C++ code that the model keeps as values: an index outside a vector or a
  page array, a dereferenced null pointer, a failed \<open>assert\<close>, a page read through the
  type of the other node kind, the "out of memory" exception, and a shift whose result
  does not fit its type. An operation that faults returns no state: a run ends there.
\<close>

datatype fault = OutOfBounds | NullPointer | AssertFailed | BadCast | OutOfMemory | ShiftOverflow

subsection \<open>The bit macros\<close>

text \<open>
  The macros shift in 32-bit types. \<open>1 << y\<close> is computed in \<open>int\<close>: for \<open>y\<close> from 31 on
  the value \<open>2^y\<close> is no \<open>int\<close> (the shift is undefined, or gives a negative number), and
  the model faults. The table gets there only with the size \<open>1 << (g+1)\<close> of \<open>expand\<close>,
  where a negative number is no size of a vector; the shifts of \<open>Split\<close> stay below 31
  (lemma \<open>reachable_shifts_defined\<close>).
\<close>

definition shl1 :: "nat \<Rightarrow> fault + nat" where
  "shl1 y = (if y < 31 then Inr (push_bit y 1) else Inl ShiftOverflow)"

text \<open>
  \<open>SETBIT(x, y) = x | (1 << y)\<close>, \<open>ISZERO(x, y) = !(x & (1 << y))\<close> and
  \<open>GETBIT(x, y) = x & ~(0xFFFFFFFF << (y+1))\<close>. The literal \<open>0xFFFFFFFF\<close> is a 32-bit
  unsigned value: its shift by \<open>y+1\<close> is defined for \<open>y+1 < 32\<close> only, is cut to 32 bits,
  and its complement is taken in 32 bits before the result meets the hash value. At
  \<open>y = 31\<close> the shift count is the width of the type and \<open>GETBIT\<close> faults.
\<close>

definition SETBIT :: "nat \<Rightarrow> nat \<Rightarrow> fault + nat" where
  "SETBIT x y = (case shl1 y of Inl e \<Rightarrow> Inl e | Inr m \<Rightarrow> Inr (x OR m))"

definition ISZERO :: "nat \<Rightarrow> nat \<Rightarrow> fault + bool" where
  "ISZERO x y = (case shl1 y of Inl e \<Rightarrow> Inl e | Inr m \<Rightarrow> Inr (x AND m = 0))"

definition GETBIT :: "nat \<Rightarrow> nat \<Rightarrow> fault + nat" where
  "GETBIT x y =
     (if y + 1 < 32
      then Inr (x AND (4294967295 - push_bit (y + 1) 4294967295 mod 4294967296))
      else Inl ShiftOverflow)"

subsection \<open>Buckets\<close>

text \<open>
  \<open>data_\<close> is a \<open>std::map\<close>: its entries are kept in key order with one entry per key.
  \<open>std::map::insert\<close> leaves the map unchanged when the key is already there.
\<close>

record ('k, 'v) Bucket =
  bucket_id :: nat
  local_depth :: nat
  bucket_size :: nat
  bucket_data :: "('k \<times> 'v) list"

definition map_insert :: "'k::linorder \<Rightarrow> 'v \<Rightarrow> ('k \<times> 'v) list \<Rightarrow> ('k \<times> 'v) list" where
  "map_insert k v d = (if k \<in> fst ` set d then d else insort_key fst (k, v) d)"

definition map_erase :: "'k \<Rightarrow> ('k \<times> 'v) list \<Rightarrow> ('k \<times> 'v) list" where
  "map_erase k d = filter (\<lambda>p. fst p \<noteq> k) d"

definition Bucket_new :: "nat \<Rightarrow> nat \<Rightarrow> nat \<Rightarrow> ('k, 'v) Bucket" where
  "Bucket_new i depth sz = \<lparr>bucket_id = i, local_depth = depth, bucket_size = sz, bucket_data = []\<rparr>"

text \<open>\<open>Put\<close> inserts first and then reports \<open>false\<close> when the entry count equals the size.\<close>

definition Put :: "'k::linorder \<Rightarrow> 'v \<Rightarrow> ('k, 'v) Bucket \<Rightarrow> bool \<times> ('k, 'v) Bucket" where
  "Put k v b =
     (let d = map_insert k v (bucket_data b)
      in (length d \<noteq> bucket_size b, b\<lparr>bucket_data := d\<rparr>))"

definition Get :: "'k \<Rightarrow> ('k, 'v) Bucket \<Rightarrow> 'v option" where
  "Get k b = map_of (bucket_data b) k"

definition Bucket_Remove :: "'k \<Rightarrow> ('k, 'v) Bucket \<Rightarrow> bool \<times> ('k, 'v) Bucket" where
  "Bucket_Remove k b =
     (case map_of (bucket_data b) k of
        None \<Rightarrow> (False, b)
      | Some _ \<Rightarrow> (True, b\<lparr>bucket_data := map_erase k (bucket_data b)\<rparr>))"

text \<open>
  \<open>Split\<close> raises the local depth, creates the sibling with the bit \<open>local_depth_\<close> set in
  its id, and walks the entries in key order: an entry whose hash has that bit set is
  put into the sibling and erased here. The hash function \<open>Hasher<K>\<close> wraps
  \<open>std::hash<K>\<close>, which the repository does not define; it is the parameter \<open>h\<close>.
\<close>

fun split_loop ::
  "('k \<Rightarrow> nat) \<Rightarrow> nat \<Rightarrow> ('k::linorder \<times> 'v) list \<Rightarrow> ('k, 'v) Bucket
     \<Rightarrow> fault + ('k \<times> 'v) list \<times> ('k, 'v) Bucket"
where
  "split_loop h ld [] nb = Inr ([], nb)"
| "split_loop h ld ((k, v) # rest) nb =
     (case ISZERO (h k) ld of
        Inl e \<Rightarrow> Inl e
      | Inr z \<Rightarrow>
          if \<not> z then split_loop h ld rest (snd (Put k v nb))
          else (case split_loop h ld rest nb of
                  Inl e \<Rightarrow> Inl e
                | Inr (kept, nb') \<Rightarrow> Inr ((k, v) # kept, nb')))"

definition Split ::
  "('k \<Rightarrow> nat) \<Rightarrow> ('k::linorder, 'v) Bucket \<Rightarrow> fault + ('k, 'v) Bucket \<times> ('k, 'v) Bucket"
where
  "Split h b =
     (let ld = local_depth b + 1
      in case SETBIT (bucket_id b) ld of
           Inl e \<Rightarrow> Inl e
         | Inr new_id \<Rightarrow>
             (case split_loop h ld (bucket_data b) (Bucket_new new_id ld (bucket_size b)) of
                Inl e \<Rightarrow> Inl e
              | Inr (kept, nb') \<Rightarrow> Inr (b\<lparr>local_depth := ld, bucket_data := kept\<rparr>, nb')))"

subsection \<open>The directory\<close>

text \<open>
  The directory \<open>buckets_\<close> is a vector of shared pointers: several slots may point to one
  bucket, and a bucket changed through one slot is changed for all of them. The buckets
  live in a store (\<open>eh_heap\<close>, addressed by position, never freed); a slot holds an
  address, or \<open>None\<close> for the null pointer.
\<close>

record ('k, 'v) ExtendibleHash =
  eh_bucket_size :: nat
  global_depth :: nat
  buckets :: "nat option list"
  eh_heap :: "('k, 'v) Bucket list"

definition EH_new :: "nat \<Rightarrow> ('k, 'v) ExtendibleHash" where
  "EH_new sz =
     \<lparr>eh_bucket_size = sz, global_depth = 0,
      buckets = [Some 0, Some 1],
      eh_heap = [Bucket_new 0 0 sz, Bucket_new 1 0 sz]\<rparr>"

definition GetGlobalDepth :: "('k, 'v) ExtendibleHash \<Rightarrow> nat" where
  "GetGlobalDepth t = global_depth t"

definition GetNumBuckets :: "('k, 'v) ExtendibleHash \<Rightarrow> nat" where
  "GetNumBuckets t = length (buckets t)"

definition GetLocalDepth :: "('k, 'v) ExtendibleHash \<Rightarrow> nat \<Rightarrow> fault + nat" where
  "GetLocalDepth t i =
     (if length (buckets t) \<le> i then Inl OutOfBounds
      else case buckets t ! i of
             None \<Rightarrow> Inl NullPointer
           | Some a \<Rightarrow> Inr (local_depth (eh_heap t ! a)))"

text \<open>The slot that \<open>Find\<close>, \<open>Remove\<close> and \<open>Insert\<close> consult for a key.\<close>

definition eh_slot :: "('k \<Rightarrow> nat) \<Rightarrow> ('k, 'v) ExtendibleHash \<Rightarrow> 'k \<Rightarrow> fault + nat" where
  "eh_slot h t key = GETBIT (h key) (global_depth t)"

definition EH_Find :: "('k \<Rightarrow> nat) \<Rightarrow> 'k \<Rightarrow> ('k, 'v) ExtendibleHash \<Rightarrow> fault + 'v option" where
  "EH_Find h key t =
     (case eh_slot h t key of
        Inl e \<Rightarrow> Inl e
      | Inr i \<Rightarrow>
          if length (buckets t) \<le> i then Inl OutOfBounds
          else case buckets t ! i of
                 None \<Rightarrow> Inl NullPointer
               | Some a \<Rightarrow> Inr (Get key (eh_heap t ! a)))"

definition EH_Remove ::
  "('k \<Rightarrow> nat) \<Rightarrow> 'k \<Rightarrow> ('k, 'v) ExtendibleHash \<Rightarrow> fault + bool \<times> ('k, 'v) ExtendibleHash"
where
  "EH_Remove h key t =
     (case eh_slot h t key of
        Inl e \<Rightarrow> Inl e
      | Inr i \<Rightarrow>
          if length (buckets t) \<le> i then Inl OutOfBounds
          else case buckets t ! i of
                 None \<Rightarrow> Inl NullPointer
               | Some a \<Rightarrow>
                   (case Bucket_Remove key (eh_heap t ! a) of
                      (r, b) \<Rightarrow> Inr (r, t\<lparr>eh_heap := (eh_heap t)[a := b]\<rparr>)))"

text \<open>
  \<open>expand\<close> runs after the global depth was raised to \<open>g\<close>: the vector is resized to
  \<open>1 << (g+1)\<close> slots (new slots are null), the new bucket is stored at its id, and each
  slot \<open>i\<close> below \<open>1 << g\<close> that is null or whose bucket has a local depth below \<open>g\<close> is
  copied to the slot \<open>SETBIT(i, g)\<close>. Both sizes are computed in \<open>int\<close>: from \<open>g = 30\<close> on
  the new size \<open>1 << (g+1)\<close> does not fit and \<open>expand\<close> faults before it resizes.
\<close>

definition resize :: "nat \<Rightarrow> nat option list \<Rightarrow> nat option list" where
  "resize n bs = take n bs @ replicate (n - length bs) None"

fun expand_loop ::
  "('k, 'v) Bucket list \<Rightarrow> nat \<Rightarrow> nat list \<Rightarrow> nat option list \<Rightarrow> fault + nat option list"
where
  "expand_loop hp g [] bs = Inr bs"
| "expand_loop hp g (i # is) bs =
     (if length bs \<le> i then Inl OutOfBounds
      else if (case bs ! i of None \<Rightarrow> True | Some a \<Rightarrow> local_depth (hp ! a) < g)
      then (case SETBIT i g of
              Inl e \<Rightarrow> Inl e
            | Inr j \<Rightarrow>
                if length bs \<le> j then Inl OutOfBounds
                else expand_loop hp g is (bs[j := bs ! i]))
      else expand_loop hp g is bs)"

definition expand ::
  "('k, 'v) Bucket list \<Rightarrow> nat \<Rightarrow> nat \<Rightarrow> nat \<Rightarrow> nat option list \<Rightarrow> fault + nat option list"
where
  "expand hp g i a bs =
     (case shl1 (g + 1) of
        Inl e \<Rightarrow> Inl e
      | Inr n \<Rightarrow>
          (let bs1 = resize n bs
           in if length bs1 \<le> i then Inl OutOfBounds
              else case shl1 g of
                     Inl e \<Rightarrow> Inl e
                   | Inr m \<Rightarrow> expand_loop hp g [0 ..< m] (bs1[i := Some a])))"

text \<open>
  \<open>Insert\<close>: a null slot gets a fresh bucket of local depth 0. Otherwise the pair is put
  into the slot's bucket; when \<open>Put\<close> reports \<open>false\<close> the bucket is split once, and the
  sibling is installed by \<open>expand\<close> when the bucket's new local depth exceeds the global
  depth, and at the single slot of its id otherwise.
\<close>

definition EH_Insert ::
  "('k \<Rightarrow> nat) \<Rightarrow> 'k::linorder \<Rightarrow> 'v \<Rightarrow> ('k, 'v) ExtendibleHash \<Rightarrow> fault + ('k, 'v) ExtendibleHash"
where
  "EH_Insert h key val t =
     (case eh_slot h t key of
        Inl e \<Rightarrow> Inl e
      | Inr i \<Rightarrow>
         if length (buckets t) \<le> i then Inl OutOfBounds
         else case buckets t ! i of
            None \<Rightarrow>
              Inr (t\<lparr>buckets := (buckets t)[i := Some (length (eh_heap t))],
                     eh_heap := eh_heap t @ [snd (Put key val (Bucket_new i 0 (eh_bucket_size t)))]\<rparr>)
          | Some a \<Rightarrow>
              (case Put key val (eh_heap t ! a) of
                 (True, b) \<Rightarrow> Inr (t\<lparr>eh_heap := (eh_heap t)[a := b]\<rparr>)
               | (False, b) \<Rightarrow>
                   (case Split h b of
                      Inl e \<Rightarrow> Inl e
                    | Inr (b', new_bucket) \<Rightarrow>
                        (let new_id = bucket_id new_bucket;
                             na = length (eh_heap t);
                             hp = (eh_heap t)[a := b'] @ [new_bucket]
                         in if global_depth t < local_depth b'
                            then (case expand hp (global_depth t + 1) new_id na (buckets t) of
                                    Inl e \<Rightarrow> Inl e
                                  | Inr bs \<Rightarrow>
                                      Inr (t\<lparr>global_depth := global_depth t + 1,
                                             buckets := bs, eh_heap := hp\<rparr>))
                            else if length (buckets t) \<le> new_id then Inl OutOfBounds
                            else Inr (t\<lparr>buckets := (buckets t)[new_id := Some na],
                                        eh_heap := hp\<rparr>)))))"

text \<open>Runs of the table: a sequence of inserts and removals, from the constructor.\<close>

datatype ('k, 'v) eh_op = EInsert 'k 'v | ERemove 'k

fun eh_step ::
  "('k \<Rightarrow> nat) \<Rightarrow> fault + ('k::linorder, 'v) ExtendibleHash \<Rightarrow> ('k, 'v) eh_op
     \<Rightarrow> fault + ('k, 'v) ExtendibleHash"
where
  "eh_step h (Inl e) _ = Inl e"
| "eh_step h (Inr t) (EInsert k v) = EH_Insert h k v t"
| "eh_step h (Inr t) (ERemove k) = map_sum id snd (EH_Remove h k t)"

definition eh_run ::
  "('k \<Rightarrow> nat) \<Rightarrow> nat \<Rightarrow> ('k::linorder, 'v) eh_op list \<Rightarrow> fault + ('k, 'v) ExtendibleHash"
where
  "eh_run h sz ops = foldl (eh_step h) (Inr (EH_new sz)) ops"

text \<open>\<open>Find\<close> on the result of a run.\<close>

definition eh_find_in ::
  "('k \<Rightarrow> nat) \<Rightarrow> 'k \<Rightarrow> fault + ('k, 'v) ExtendibleHash \<Rightarrow> fault + 'v option"
where
  "eh_find_in h key r = (case r of Inl e \<Rightarrow> Inl e | Inr t \<Rightarrow> EH_Find h key t)"

text \<open>
  The shape of the directory: \<open>2^(G+1)\<close> slots at a global depth \<open>G\<close> below 30, the depths
  at which \<open>expand\<close> can build it.
\<close>

definition dir_shape :: "('k, 'v) ExtendibleHash \<Rightarrow> bool" where
  "dir_shape t = (global_depth t < 30 \<and> length (buckets t) = 2 ^ (global_depth t + 1))"

text \<open>
  The store behind the directory: every slot that is not null holds the address of a
  bucket of the store, and no bucket has a local depth above the global depth.
\<close>

definition heap_inv :: "('k, 'v) ExtendibleHash \<Rightarrow> bool" where
  "heap_inv t =
     ((\<forall>a. Some a \<in> set (buckets t) \<longrightarrow> a < length (eh_heap t)) \<and>
      (\<forall>b \<in> set (eh_heap t). local_depth b \<le> global_depth t))"

section \<open>B+Tree pages (page/b_plus_tree_internal_page.cpp, page/b_plus_tree_leaf_page.cpp)\<close>

text \<open>
  A page id is a C \<open>int\<close>. Keys are compared by the \<open>KeyComparator\<close>, a three-way
  comparison whose sign is the order of the keys; it is the linear order of the key type
  here: \<open>comparator(a, b) < 0\<close> is \<open>a < b\<close> and \<open>comparator(a, b) > 0\<close> is \<open>b < a\<close>.

  The \<open>array\<close> of a page is the rest of its frame: a fixed number of slots, of which the
  first \<open>size\<close> are in use. The slots behind \<open>size\<close> exist and hold whatever was written
  there before, so the model keeps all slots. An access outside the slots is the fault
  \<open>OutOfBounds\<close>.
\<close>

type_synonym page_id_t = int

text \<open>
  Modelled from the spec: the two reserved page ids, which are defined in a header
  outside the sources. The header page has the id 0; the invalid id is a sentinel that
  names no page, taken as \<open>-1\<close>.
\<close>

definition INVALID_PAGE_ID :: page_id_t where
  "INVALID_PAGE_ID = - 1"

definition HEADER_PAGE_ID :: page_id_t where
  "HEADER_PAGE_ID = 0"

text \<open>Sequencing of steps that can fault, and guarded reads and writes of a slot.\<close>

definition bindf :: "fault + 'a \<Rightarrow> ('a \<Rightarrow> fault + 'b) \<Rightarrow> fault + 'b" where
  "bindf m f = (case m of Inl e \<Rightarrow> Inl e | Inr x \<Rightarrow> f x)"

definition rd :: "'a list \<Rightarrow> int \<Rightarrow> fault + 'a" where
  "rd arr i = (if 0 \<le> i \<and> i < int (length arr) then Inr (arr ! nat i) else Inl OutOfBounds)"

definition wr :: "'a list \<Rightarrow> int \<Rightarrow> 'a \<Rightarrow> fault + 'a list" where
  "wr arr i x = (if 0 \<le> i \<and> i < int (length arr) then Inr (arr[nat i := x]) else Inl OutOfBounds)"

text \<open>
  \<open>memmove(array + dst, array + src, n * sizeof(MappingType))\<close> inside one array, and
  \<open>memcpy\<close> from one array to another, counted in entries. The byte count is a
  \<open>size_t\<close>: a negative count is a huge one and runs out of the frame.
\<close>

definition memmove :: "'a list \<Rightarrow> int \<Rightarrow> int \<Rightarrow> int \<Rightarrow> fault + 'a list" where
  "memmove arr dst src n =
     (if n = 0 then Inr arr
      else if n < 0 \<or> dst < 0 \<or> src < 0 \<or> int (length arr) < dst + n \<or> int (length arr) < src + n
      then Inl OutOfBounds
      else Inr (take (nat dst) arr @ take (nat n) (drop (nat src) arr) @ drop (nat (dst + n)) arr))"

definition memcpy :: "'a list \<Rightarrow> int \<Rightarrow> 'a list \<Rightarrow> int \<Rightarrow> int \<Rightarrow> fault + 'a list" where
  "memcpy darr dst sarr src n =
     (if n = 0 then Inr darr
      else if n < 0 \<or> dst < 0 \<or> src < 0 \<or> int (length darr) < dst + n \<or> int (length sarr) < src + n
      then Inl OutOfBounds
      else Inr (take (nat dst) darr @ take (nat n) (drop (nat src) sarr) @ drop (nat (dst + n)) darr))"

subsection \<open>BinarySearch\<close>

text \<open>
  The same function stands in both page files. Its indices are \<open>size_t\<close>: \<open>end = size - 1\<close>
  wraps to \<open>2^64 - 1\<close> for size 0. It starts at index 1, stops at the first hit, and
  returns \<open>start\<close> converted to \<open>int\<close>.
\<close>

function bs_loop :: "('k::linorder \<times> 'v) list \<Rightarrow> 'k \<Rightarrow> int \<Rightarrow> int \<Rightarrow> fault + int" where
  "bs_loop arr key start end =
     (if start < end then
        (let middle = start + (end - start) div 2
         in case rd arr middle of
              Inl e \<Rightarrow> Inl e
            | Inr m \<Rightarrow>
                if fst m < key then bs_loop arr key (middle + 1) end
                else if key < fst m then bs_loop arr key start middle
                else Inr middle)
      else Inr start)"
  by pat_completeness auto
termination
  by (relation "measure (\<lambda>(arr, key, start, end). nat (end - start))") auto

declare bs_loop.simps [simp del]

definition to_int :: "int \<Rightarrow> int" where
  "to_int n = (let m = n mod 4294967296 in if m < 2147483648 then m else m - 4294967296)"

definition BinarySearch :: "('k::linorder \<times> 'v) list \<Rightarrow> int \<Rightarrow> 'k \<Rightarrow> fault + int" where
  "BinarySearch arr sz key =
     map_sum id to_int (bs_loop arr key 1 ((sz - 1) mod 18446744073709551616))"

subsection \<open>Internal pages\<close>

record 'k InternalPage =
  ip_page_id :: page_id_t
  ip_parent_page_id :: page_id_t
  ip_size :: int
  ip_max_size :: int
  ip_array :: "('k \<times> page_id_t) list"

definition IP_KeyAt :: "'k InternalPage \<Rightarrow> int \<Rightarrow> fault + 'k" where
  "IP_KeyAt p index =
     (if 0 \<le> index \<and> index < ip_size p then map_sum id fst (rd (ip_array p) index)
      else Inl AssertFailed)"

definition IP_SetKeyAt :: "'k InternalPage \<Rightarrow> int \<Rightarrow> 'k \<Rightarrow> fault + 'k InternalPage" where
  "IP_SetKeyAt p index key =
     (if 0 \<le> index \<and> index < ip_size p then
        bindf (rd (ip_array p) index) (\<lambda>e.
        bindf (wr (ip_array p) index (key, snd e)) (\<lambda>arr. Inr (p\<lparr>ip_array := arr\<rparr>)))
      else Inl AssertFailed)"

definition IP_ValueAt :: "'k InternalPage \<Rightarrow> int \<Rightarrow> fault + page_id_t" where
  "IP_ValueAt p index =
     (if 0 \<le> index \<and> index \<le> ip_size p then map_sum id snd (rd (ip_array p) index)
      else Inl AssertFailed)"

text \<open>
  \<open>ValueIndex\<close>: binary search over the child page ids of the slots \<open>0 .. size-1\<close>; the
  index of the hit, or \<open>-1\<close> when the interval becomes empty.
\<close>

function vi_loop :: "('k \<times> page_id_t) list \<Rightarrow> page_id_t \<Rightarrow> int \<Rightarrow> int \<Rightarrow> fault + int" where
  "vi_loop arr v start end =
     (if start \<le> end then
        (let middle = start + (end - start) div 2
         in case rd arr middle of
              Inl e \<Rightarrow> Inl e
            | Inr m \<Rightarrow>
                if v < snd m then vi_loop arr v start (middle - 1)
                else if snd m < v then vi_loop arr v (middle + 1) end
                else Inr middle)
      else Inr (- 1))"
  by pat_completeness auto
termination
  by (relation "measure (\<lambda>(arr, v, start, end). nat (end - start + 1))") auto

declare vi_loop.simps [simp del]

definition ValueIndex :: "'k InternalPage \<Rightarrow> page_id_t \<Rightarrow> fault + int" where
  "ValueIndex p v = vi_loop (ip_array p) v 0 (ip_size p - 1)"

text \<open>
  \<open>Lookup\<close>: the child of slot 0 when the key is below the key of slot 1, the child of
  the last slot when the key is above the last key, and otherwise the child of the slot
  before the one \<open>BinarySearch\<close> returns.
\<close>

definition IP_Lookup :: "'k::linorder \<Rightarrow> 'k InternalPage \<Rightarrow> fault + page_id_t" where
  "IP_Lookup key p =
     (let sz = ip_size p; left = 1; right = sz - 1
      in bindf (rd (ip_array p) left) (\<lambda>l.
           if key < fst l then map_sum id snd (rd (ip_array p) (left - 1))
           else bindf (rd (ip_array p) right) (\<lambda>r.
             if fst r < key then Inr (snd r)
             else bindf (BinarySearch (ip_array p) sz key) (\<lambda>index.
               if left \<le> index \<and> index \<le> right
               then map_sum id snd (rd (ip_array p) (index - 1))
               else Inl AssertFailed))))"

definition PopulateNewRoot ::
  "page_id_t \<Rightarrow> 'k \<Rightarrow> page_id_t \<Rightarrow> 'k InternalPage \<Rightarrow> fault + 'k InternalPage"
where
  "PopulateNewRoot old_value new_key new_value p =
     bindf (rd (ip_array p) 0) (\<lambda>e0.
     bindf (wr (ip_array p) 0 (fst e0, old_value)) (\<lambda>arr0.
     bindf (wr arr0 1 (new_key, new_value)) (\<lambda>arr1.
       Inr (p\<lparr>ip_array := arr1, ip_size := ip_size p + 2\<rparr>))))"

text \<open>
  \<open>InsertNodeAfter\<close> asserts that the page is not full, finds the slot of \<open>old_value\<close> with
  \<open>ValueIndex\<close>, moves the slots behind it one place up and raises the size. It returns
  the new size; the new pair itself is not written by the source.
\<close>

definition InsertNodeAfter ::
  "page_id_t \<Rightarrow> 'k \<Rightarrow> page_id_t \<Rightarrow> 'k InternalPage \<Rightarrow> fault + int \<times> 'k InternalPage"
where
  "InsertNodeAfter old_value new_key new_value p =
     (let sz = ip_size p; max_size = ip_max_size p
      in if \<not> sz < max_size then Inl AssertFailed
         else bindf (ValueIndex p old_value) (\<lambda>old_index.
                let dest_index = old_index + 2; src_index = old_index + 1
                in bindf (memmove (ip_array p) dest_index src_index (sz - src_index)) (\<lambda>arr.
                     Inr (sz + 1, p\<lparr>ip_array := arr, ip_size := sz + 1\<rparr>))))"

definition IP_Remove :: "int \<Rightarrow> 'k InternalPage \<Rightarrow> fault + 'k InternalPage" where
  "IP_Remove index p =
     bindf (memmove (ip_array p) index (index + 1) (ip_size p - index - 1)) (\<lambda>arr.
       Inr (p\<lparr>ip_array := arr, ip_size := ip_size p - 1\<rparr>))"

subsection \<open>Leaf pages\<close>

record ('k, 'v) LeafPage =
  lp_page_id :: page_id_t
  lp_parent_page_id :: page_id_t
  lp_size :: int
  lp_max_size :: int
  lp_next_page_id :: page_id_t
  lp_array :: "('k \<times> 'v) list"

text \<open>
  \<open>Init\<close> writes the header fields of a fresh frame; the slots keep the bytes of the
  frame (\<open>raw\<close>), and the maximal size is the number of slots that fit.
\<close>

definition Leaf_Init :: "page_id_t \<Rightarrow> page_id_t \<Rightarrow> ('k \<times> 'v) list \<Rightarrow> ('k, 'v) LeafPage" where
  "Leaf_Init page_id parent_id raw =
     \<lparr>lp_page_id = page_id, lp_parent_page_id = parent_id, lp_size = 0,
      lp_max_size = int (length raw), lp_next_page_id = INVALID_PAGE_ID, lp_array = raw\<rparr>"

definition KeyIndex :: "'k::linorder \<Rightarrow> ('k, 'v) LeafPage \<Rightarrow> fault + int" where
  "KeyIndex key p = BinarySearch (lp_array p) (lp_size p) key"

definition Leaf_KeyAt :: "('k, 'v) LeafPage \<Rightarrow> int \<Rightarrow> fault + 'k" where
  "Leaf_KeyAt p index =
     (if 0 \<le> index \<and> index < lp_size p then map_sum id fst (rd (lp_array p) index)
      else Inl AssertFailed)"

text \<open>
  \<open>Lookup\<close> reports absence when \<open>BinarySearch\<close> returns \<open>-1\<close>, and otherwise the value of
  the slot it returns.
\<close>

definition Leaf_Lookup :: "'k::linorder \<Rightarrow> ('k, 'v) LeafPage \<Rightarrow> fault + 'v option" where
  "Leaf_Lookup key p =
     bindf (BinarySearch (lp_array p) (lp_size p) key) (\<lambda>index.
       if index = - 1 then Inr None
       else bindf (rd (lp_array p) index) (\<lambda>e. Inr (Some (snd e))))"

definition Leaf_Insert ::
  "'k::linorder \<Rightarrow> 'v \<Rightarrow> ('k, 'v) LeafPage \<Rightarrow> fault + int \<times> ('k, 'v) LeafPage"
where
  "Leaf_Insert key val p =
     (let sz = lp_size p;
          store = (\<lambda>arr insert_index.
            bindf (wr arr insert_index (key, val)) (\<lambda>arr'.
              Inr (sz + 1, p\<lparr>lp_array := arr', lp_size := sz + 1\<rparr>)))
      in if sz = 0 then store (lp_array p) sz
         else bindf (rd (lp_array p) (sz - 1)) (\<lambda>lst.
           if fst lst < key then store (lp_array p) sz
           else bindf (rd (lp_array p) 0) (\<lambda>fstE.
             if key < fst fstE
             then bindf (memmove (lp_array p) 1 0 sz) (\<lambda>arr. store arr 0)
             else bindf (KeyIndex key p) (\<lambda>insert_index.
                    bindf (memmove (lp_array p) insert_index (insert_index + 1) (sz - insert_index))
                      (\<lambda>arr. store arr insert_index)))))"

text \<open>
  \<open>RemoveAndDeleteRecord\<close>: when \<open>BinarySearch\<close> does not return \<open>-1\<close>, the slots from the
  returned index on are moved by \<open>memmove(array+index+1, array+index, size-index-1)\<close> and
  the size is lowered; the value returned is the local \<open>size\<close> read at the start.
\<close>

definition RemoveAndDeleteRecord ::
  "'k::linorder \<Rightarrow> ('k, 'v) LeafPage \<Rightarrow> fault + int \<times> ('k, 'v) LeafPage"
where
  "RemoveAndDeleteRecord key p =
     (let sz = lp_size p
      in bindf (BinarySearch (lp_array p) sz key) (\<lambda>index.
           if index \<noteq> - 1
           then bindf (memmove (lp_array p) (index + 1) index (sz - index - 1)) (\<lambda>arr.
                  Inr (sz, p\<lparr>lp_array := arr, lp_size := sz - 1\<rparr>))
           else Inr (sz, p)))"

text \<open>\<open>MoveHalfTo\<close> with \<open>CopyHalfFrom\<close>: the upper half goes to the empty recipient.\<close>

definition Leaf_CopyHalfFrom ::
  "('k \<times> 'v) list \<Rightarrow> int \<Rightarrow> int \<Rightarrow> ('k, 'v) LeafPage \<Rightarrow> fault + ('k, 'v) LeafPage"
where
  "Leaf_CopyHalfFrom items from n r =
     (let start = lp_size r
      in if start \<noteq> 0 then Inl AssertFailed
         else bindf (memcpy (lp_array r) start items from n) (\<lambda>arr.
                Inr (r\<lparr>lp_array := arr, lp_size := lp_size r + n\<rparr>)))"

definition Leaf_MoveHalfTo ::
  "('k, 'v) LeafPage \<Rightarrow> ('k, 'v) LeafPage \<Rightarrow> fault + ('k, 'v) LeafPage \<times> ('k, 'v) LeafPage"
where
  "Leaf_MoveHalfTo p recipient =
     (let sz = lp_size p; half = (1 + sz) div 2
      in bindf (Leaf_CopyHalfFrom (lp_array p) (sz - half) half recipient) (\<lambda>r.
           Inr (p\<lparr>lp_size := sz - half\<rparr>, r)))"

text \<open>
  \<open>MoveAllTo\<close> calls \<open>recipient->CopyAllFrom(array, size)\<close> with this page's array as
  \<open>items\<close>. \<open>CopyAllFrom\<close> runs \<open>memcpy(items, array + current_size, size)\<close> on the
  recipient: the destination is \<open>items\<close>, the source are the recipient's slots from its
  current size on. So \<open>CopyAllFrom\<close> returns the changed \<open>items\<close> and the recipient. The
  two pages are different frames.
\<close>

definition Leaf_CopyAllFrom ::
  "('k \<times> 'v) list \<Rightarrow> int \<Rightarrow> ('k, 'v) LeafPage \<Rightarrow> fault + ('k \<times> 'v) list \<times> ('k, 'v) LeafPage"
where
  "Leaf_CopyAllFrom items n r =
     (let current_size = lp_size r
      in bindf (memcpy items 0 (lp_array r) current_size n) (\<lambda>items'.
           Inr (items', r\<lparr>lp_size := lp_size r + n\<rparr>)))"

definition Leaf_MoveAllTo ::
  "('k, 'v) LeafPage \<Rightarrow> ('k, 'v) LeafPage \<Rightarrow> fault + ('k, 'v) LeafPage \<times> ('k, 'v) LeafPage"
where
  "Leaf_MoveAllTo p recipient =
     (let sz = lp_size p
      in bindf (Leaf_CopyAllFrom (lp_array p) sz recipient) (\<lambda>(items', r).
           Inr (p\<lparr>lp_array := items', lp_size := lp_size p - sz\<rparr>,
                r\<lparr>lp_next_page_id := lp_next_page_id p\<rparr>)))"

text \<open>The entries in use: the first \<open>size\<close> slots.\<close>

definition leaf_entries :: "('k, 'v) LeafPage \<Rightarrow> ('k \<times> 'v) list" where
  "leaf_entries p = take (nat (lp_size p)) (lp_array p)"

definition ip_entries :: "'k InternalPage \<Rightarrow> ('k \<times> page_id_t) list" where
  "ip_entries p = take (nat (ip_size p)) (ip_array p)"

section \<open>Buffer pool and B+Tree index (buffer/buffer_pool_manager.h, index/b_plus_tree.cpp)\<close>

subsection \<open>The buffer pool\<close>

text \<open>
  A page of the pool is read as a leaf, as an internal page or as the header page. The
  tree holds pointers into pinned frames and changes the pages in place; here the pages
  live in a store addressed by page id, and every change is written to the store.
\<close>

datatype ('k, 'v) node =
    LeafNode "('k, 'v) LeafPage"
  | InternalNode "'k InternalPage"
  | HeaderNode "(string \<times> page_id_t) list"

record ('k, 'v) BufferPoolManager =
  bp_pages :: "(page_id_t \<times> ('k, 'v) node) list"
  bp_pin_count :: "(page_id_t \<times> nat) list"
  bp_next_page_id :: page_id_t
  bp_raw :: "('k \<times> 'v) list"
  bp_fetched :: nat
  bp_unpinned :: nat

fun al_update :: "'a \<Rightarrow> 'b \<Rightarrow> ('a \<times> 'b) list \<Rightarrow> ('a \<times> 'b) list" where
  "al_update k v [] = [(k, v)]"
| "al_update k v ((k', v') # xs) = (if k = k' then (k, v) # xs else (k', v') # al_update k v xs)"

definition pin_count :: "('k, 'v) BufferPoolManager \<Rightarrow> page_id_t \<Rightarrow> nat" where
  "pin_count bp pid = (case map_of (bp_pin_count bp) pid of None \<Rightarrow> 0 | Some n \<Rightarrow> n)"

definition get_page :: "('k, 'v) BufferPoolManager \<Rightarrow> page_id_t \<Rightarrow> ('k, 'v) node option" where
  "get_page bp pid = map_of (bp_pages bp) pid"

definition set_page ::
  "page_id_t \<Rightarrow> ('k, 'v) node \<Rightarrow> ('k, 'v) BufferPoolManager \<Rightarrow> ('k, 'v) BufferPoolManager"
where
  "set_page pid n bp = bp\<lparr>bp_pages := al_update pid n (bp_pages bp)\<rparr>"

text \<open>
  Modelled from the spec: the member functions of \<open>BufferPoolManager\<close>, of which the
  repository holds the declarations only. \<open>FetchPage\<close> returns the page pinned once more;
  \<open>UnpinPage\<close> lowers the pin count and fails on a pin count of 0; \<open>NewPage\<close> allocates
  the next page id and returns its frame pinned once. The pool is large enough: a fetch
  fails (returns the null pointer) only for a page id that names no page. The slots of a
  new frame hold \<open>bp_raw\<close>. The two counters record the successful \<open>FetchPage\<close>/\<open>NewPage\<close>
  calls and the successful \<open>UnpinPage\<close> calls.
\<close>

definition FetchPage ::
  "page_id_t \<Rightarrow> ('k, 'v) BufferPoolManager \<Rightarrow> ('k, 'v) node option \<times> ('k, 'v) BufferPoolManager"
where
  "FetchPage pid bp =
     (case get_page bp pid of
        None \<Rightarrow> (None, bp)
      | Some n \<Rightarrow>
          (Some n, bp\<lparr>bp_pin_count := al_update pid (pin_count bp pid + 1) (bp_pin_count bp),
                      bp_fetched := bp_fetched bp + 1\<rparr>))"

definition UnpinPage ::
  "page_id_t \<Rightarrow> bool \<Rightarrow> ('k, 'v) BufferPoolManager \<Rightarrow> bool \<times> ('k, 'v) BufferPoolManager"
where
  "UnpinPage pid is_dirty bp =
     (if pin_count bp pid = 0 then (False, bp)
      else (True, bp\<lparr>bp_pin_count := al_update pid (pin_count bp pid - 1) (bp_pin_count bp),
                      bp_unpinned := bp_unpinned bp + 1\<rparr>))"

definition NewPage :: "('k, 'v) BufferPoolManager \<Rightarrow> page_id_t \<times> ('k, 'v) BufferPoolManager" where
  "NewPage bp =
     (let pid = bp_next_page_id bp
      in (pid, bp\<lparr>bp_pin_count := al_update pid 1 (bp_pin_count bp),
                  bp_next_page_id := pid + 1,
                  bp_fetched := bp_fetched bp + 1\<rparr>))"

text \<open>The pins that are still held: successful fetches minus successful unpins.\<close>

definition pins_held :: "('k, 'v) BufferPoolManager \<Rightarrow> int" where
  "pins_held bp = int (bp_fetched bp) - int (bp_unpinned bp)"

text \<open>
  Modelled from the spec: the header page's \<open>InsertRecord\<close> and \<open>UpdateRecord\<close>, which keep
  one record (index name, root page id) per index.
\<close>

definition InsertRecord :: "string \<Rightarrow> page_id_t \<Rightarrow> (string \<times> page_id_t) list \<Rightarrow> (string \<times> page_id_t) list" where
  "InsertRecord name root recs = (if name \<in> fst ` set recs then recs else recs @ [(name, root)])"

definition UpdateRecord :: "string \<Rightarrow> page_id_t \<Rightarrow> (string \<times> page_id_t) list \<Rightarrow> (string \<times> page_id_t) list" where
  "UpdateRecord name root recs = (if name \<in> fst ` set recs then al_update name root recs else recs)"

subsection \<open>Redistribution inside the pool\<close>

text \<open>
  A frame is read through the node type the code casts it to: a frame that holds the other
  kind of node, or the header, is the fault \<open>BadCast\<close>, and a null page pointer is the
  fault \<open>NullPointer\<close>. The parent page id stands in the header part that both node kinds
  share, so \<open>SetParentPageId\<close> works on either.
\<close>

definition set_parent :: "page_id_t \<Rightarrow> ('k, 'v) node \<Rightarrow> fault + ('k, 'v) node" where
  "set_parent parent n =
     (case n of
        LeafNode l \<Rightarrow> Inr (LeafNode (l\<lparr>lp_parent_page_id := parent\<rparr>))
      | InternalNode i \<Rightarrow> Inr (InternalNode (i\<lparr>ip_parent_page_id := parent\<rparr>))
      | HeaderNode h \<Rightarrow> Inl BadCast)"

definition fetch_internal ::
  "page_id_t \<Rightarrow> ('k, 'v) BufferPoolManager \<Rightarrow> fault + 'k InternalPage \<times> ('k, 'v) BufferPoolManager"
where
  "fetch_internal pid bp =
     (case FetchPage pid bp of
        (None, _) \<Rightarrow> Inl NullPointer
      | (Some (InternalNode i), bp') \<Rightarrow> Inr (i, bp')
      | (Some _, _) \<Rightarrow> Inl BadCast)"

definition the_internal :: "('k, 'v) BufferPoolManager \<Rightarrow> page_id_t \<Rightarrow> fault + 'k InternalPage" where
  "the_internal bp pid =
     (case get_page bp pid of
        None \<Rightarrow> Inl NullPointer
      | Some (InternalNode i) \<Rightarrow> Inr i
      | Some _ \<Rightarrow> Inl BadCast)"

definition the_leaf :: "('k, 'v) BufferPoolManager \<Rightarrow> page_id_t \<Rightarrow> fault + ('k, 'v) LeafPage" where
  "the_leaf bp pid =
     (case get_page bp pid of
        None \<Rightarrow> Inl NullPointer
      | Some (LeafNode l) \<Rightarrow> Inr l
      | Some _ \<Rightarrow> Inl BadCast)"

text \<open>
  \<open>CopyLastFrom\<close> of an internal page appends the pair, fetches the child, sets the
  child's parent to this page and unpins the child.
\<close>

definition IP_CopyLastFrom ::
  "'k \<times> page_id_t \<Rightarrow> page_id_t \<Rightarrow> ('k, 'v) BufferPoolManager \<Rightarrow> fault + ('k, 'v) BufferPoolManager"
where
  "IP_CopyLastFrom pair rid bp =
     bindf (the_internal bp rid) (\<lambda>r.
     bindf (wr (ip_array r) (ip_size r) pair) (\<lambda>arr.
       let bp1 = set_page rid (InternalNode (r\<lparr>ip_array := arr, ip_size := ip_size r + 1\<rparr>)) bp;
           child_id = snd pair;
           pid = ip_page_id r
       in case FetchPage child_id bp1 of
            (None, _) \<Rightarrow> Inl NullPointer
          | (Some c, bp2) \<Rightarrow>
              bindf (set_parent pid c) (\<lambda>c'.
                Inr (snd (UnpinPage child_id True (set_page child_id c' bp2))))))"

text \<open>
  \<open>MoveFirstToEndOf\<close> of an internal page: fetch the parent, find this page in it with
  \<open>ValueIndex\<close>, take the parent's key at that index as the key of the moved pair, put
  this page's key of slot 1 there, unpin the parent, remove slot 0 here and append the
  pair to the recipient.
\<close>

definition IP_MoveFirstToEndOf ::
  "page_id_t \<Rightarrow> page_id_t \<Rightarrow> ('k, 'v) BufferPoolManager \<Rightarrow> fault + ('k, 'v) BufferPoolManager"
where
  "IP_MoveFirstToEndOf this rid bp =
     bindf (the_internal bp this) (\<lambda>p.
       let pid = ip_page_id p; parent_id = ip_parent_page_id p
       in bindf (fetch_internal parent_id bp) (\<lambda>(parent, bp1).
          bindf (ValueIndex parent pid) (\<lambda>index_in_parent.
          bindf (IP_KeyAt parent index_in_parent) (\<lambda>key.
          bindf (rd (ip_array p) 0) (\<lambda>e0.
          bindf (rd (ip_array p) 1) (\<lambda>e1.
          bindf (IP_SetKeyAt parent index_in_parent (fst e1)) (\<lambda>parent'.
            let bp2 = snd (UnpinPage parent_id True (set_page parent_id (InternalNode parent') bp1))
            in bindf (the_internal bp2 this) (\<lambda>p2.
               bindf (IP_Remove 0 p2) (\<lambda>p3.
                 IP_CopyLastFrom (key, snd e0) rid (set_page this (InternalNode p3) bp2))))))))))"

text \<open>
  \<open>MoveFirstToEndOf\<close> of a leaf: the first pair is appended to the recipient and removed
  here; then the parent is fetched, this page is found in it with \<open>ValueIndex\<close>, and the
  parent's key at that index becomes the new first key of this page.
\<close>

definition Leaf_MoveFirstToEndOf ::
  "page_id_t \<Rightarrow> page_id_t \<Rightarrow> ('k, 'v) BufferPoolManager \<Rightarrow> fault + ('k, 'v) BufferPoolManager"
where
  "Leaf_MoveFirstToEndOf this rid bp =
     bindf (the_leaf bp this) (\<lambda>p.
     bindf (rd (lp_array p) 0) (\<lambda>e0.
     bindf (the_leaf bp rid) (\<lambda>r.
     bindf (wr (lp_array r) (lp_size r) e0) (\<lambda>rarr.
       let bp1 = set_page rid (LeafNode (r\<lparr>lp_array := rarr, lp_size := lp_size r + 1\<rparr>)) bp
       in bindf (the_leaf bp1 this) (\<lambda>p1.
          bindf (memmove (lp_array p1) 0 1 (lp_size p1 - 1)) (\<lambda>arr.
            let p2 = p1\<lparr>lp_array := arr, lp_size := lp_size p1 - 1\<rparr>;
                bp2 = set_page this (LeafNode p2) bp1;
                page_id = lp_page_id p2; parent_page_id = lp_parent_page_id p2
            in bindf (fetch_internal parent_page_id bp2) (\<lambda>(parent, bp3).
               bindf (ValueIndex parent page_id) (\<lambda>index_in_parent.
               bindf (rd (lp_array p2) 0) (\<lambda>f0.
               bindf (IP_SetKeyAt parent index_in_parent (fst f0)) (\<lambda>parent'.
                 Inr (snd (UnpinPage parent_page_id True
                        (set_page parent_page_id (InternalNode parent') bp3)))))))))))))"

subsection \<open>The index\<close>

record ('k, 'v) BPlusTree =
  index_name :: string
  root_page_id :: page_id_t
  buffer_pool_manager :: "('k, 'v) BufferPoolManager"

definition IsEmpty :: "('k, 'v) BPlusTree \<Rightarrow> bool" where
  "IsEmpty t = (root_page_id t = INVALID_PAGE_ID)"

definition UpdateRootPageId :: "bool \<Rightarrow> ('k, 'v) BPlusTree \<Rightarrow> fault + ('k, 'v) BPlusTree" where
  "UpdateRootPageId insert_record t =
     (case FetchPage HEADER_PAGE_ID (buffer_pool_manager t) of
        (None, _) \<Rightarrow> Inl NullPointer
      | (Some (HeaderNode recs), bp1) \<Rightarrow>
          (let recs' = (if insert_record then InsertRecord (index_name t) (root_page_id t) recs
                        else UpdateRecord (index_name t) (root_page_id t) recs);
               bp2 = set_page HEADER_PAGE_ID (HeaderNode recs') bp1
           in Inr (t\<lparr>buffer_pool_manager := snd (UnpinPage HEADER_PAGE_ID True bp2)\<rparr>))
      | (Some _, _) \<Rightarrow> Inl BadCast)"

text \<open>
  \<open>FindLeafPage\<close>. The loop tests \<open>btree_page->IsLeafPage()\<close>, and \<open>btree_page\<close> is set
  from \<open>page\<close> at the start of the body, so after a pass the test still reads the page of
  the pass before. \<open>bt\<close> is the page id behind \<open>btree_page\<close>, \<open>pid\<close> is \<open>page_id\<close>, and
  \<open>nonnull\<close> tells whether the last fetch returned a page. The call
  \<open>btree_page->Loopup\<close> is read as \<open>Lookup\<close>, and \<open>UnpinPage(old_page_id)\<close> as an unpin
  that leaves the page clean. The loop need not end on a store whose child pointers
  form a cycle; it runs on fuel, and \<open>None\<close> is the run that used it up.
\<close>

definition is_leaf :: "('k, 'v) BufferPoolManager \<Rightarrow> page_id_t \<Rightarrow> fault + bool" where
  "is_leaf bp pid =
     (case get_page bp pid of
        None \<Rightarrow> Inl NullPointer
      | Some (LeafNode _) \<Rightarrow> Inr True
      | Some (InternalNode _) \<Rightarrow> Inr False
      | Some (HeaderNode _) \<Rightarrow> Inl BadCast)"

fun find_loop ::
  "nat \<Rightarrow> 'k::linorder \<Rightarrow> bool \<Rightarrow> page_id_t \<Rightarrow> page_id_t \<Rightarrow> bool \<Rightarrow> ('k, 'v) BufferPoolManager
     \<Rightarrow> (fault + page_id_t \<times> ('k, 'v) BufferPoolManager) option"
where
  "find_loop fuel key leftMost bt pid nonnull bp =
     (if \<not> nonnull then Some (Inr (bt, bp))
      else case is_leaf bp bt of
        Inl e \<Rightarrow> Some (Inl e)
      | Inr leaf \<Rightarrow>
          if \<not> leaf then
            (case fuel of
               0 \<Rightarrow> None
             | Suc fuel' \<Rightarrow>
                 (case the_internal bp pid of
                    Inl e \<Rightarrow> Some (Inl e)
                  | Inr ip \<Rightarrow>
                      (case (if leftMost then IP_ValueAt ip 0 else IP_Lookup key ip) of
                         Inl e \<Rightarrow> Some (Inl e)
                       | Inr child \<Rightarrow>
                           (let bp1 = snd (UnpinPage pid False bp)
                            in case FetchPage child bp1 of
                                 (pg, bp2) \<Rightarrow>
                                   find_loop fuel' key leftMost pid child (pg \<noteq> None) bp2))))
          else Some (Inr (bt, bp)))"

definition FindLeafPage ::
  "nat \<Rightarrow> 'k::linorder \<Rightarrow> bool \<Rightarrow> ('k, 'v) BPlusTree
     \<Rightarrow> (fault + page_id_t \<times> ('k, 'v) BPlusTree) option"
where
  "FindLeafPage fuel key leftMost t =
     (let page_id = root_page_id t
      in case FetchPage page_id (buffer_pool_manager t) of
           (None, _) \<Rightarrow> Some (Inl NullPointer)
         | (Some _, bp1) \<Rightarrow>
             map_option (map_sum id (\<lambda>(leaf, bp). (leaf, t\<lparr>buffer_pool_manager := bp\<rparr>)))
               (find_loop fuel key leftMost page_id page_id True bp1))"

text \<open>
  \<open>GetValue\<close>: one fetch of the root whose result is not used, then \<open>FindLeafPage\<close>; on a
  hit the value is appended to \<open>result\<close> and the leaf is unpinned; on a miss the function
  returns at once.
\<close>

definition GetValue ::
  "nat \<Rightarrow> 'k::linorder \<Rightarrow> 'v list \<Rightarrow> ('k, 'v) BPlusTree
     \<Rightarrow> (fault + bool \<times> 'v list \<times> ('k, 'v) BPlusTree) option"
where
  "GetValue fuel key result t =
     (let t0 = t\<lparr>buffer_pool_manager := snd (FetchPage (root_page_id t) (buffer_pool_manager t))\<rparr>
      in case FindLeafPage fuel key False t0 of
           None \<Rightarrow> None
         | Some (Inl e) \<Rightarrow> Some (Inl e)
         | Some (Inr (leaf, t1)) \<Rightarrow>
             Some (bindf (the_leaf (buffer_pool_manager t1) leaf) (\<lambda>lp.
                   bindf (Leaf_Lookup key lp) (\<lambda>r.
                     case r of
                       Some v \<Rightarrow>
                         Inr (True, result @ [v],
                              t1\<lparr>buffer_pool_manager :=
                                    snd (UnpinPage (lp_page_id lp) False (buffer_pool_manager t1))\<rparr>)
                     | None \<Rightarrow> Inr (False, result, t1)))))"

text \<open>
  \<open>StartNewTree\<close>: \<open>NewPage\<close> writes the new id into \<open>root_page_id_\<close>; the header page gets
  the record; the frame is initialised as a leaf and receives the pair. \<open>Init\<close> is called
  with the page id only; its second parameter, the parent id, then is the invalid id.
\<close>

definition StartNewTree :: "'k::linorder \<Rightarrow> 'v \<Rightarrow> ('k, 'v) BPlusTree \<Rightarrow> fault + ('k, 'v) BPlusTree" where
  "StartNewTree key val t =
     (case NewPage (buffer_pool_manager t) of
        (pid, bp1) \<Rightarrow>
          bindf (UpdateRootPageId True (t\<lparr>root_page_id := pid, buffer_pool_manager := bp1\<rparr>)) (\<lambda>t2.
          bindf (Leaf_Insert key val
                   (Leaf_Init (root_page_id t2) INVALID_PAGE_ID (bp_raw (buffer_pool_manager t2))))
            (\<lambda>(n, leaf).
               let bp3 = set_page (root_page_id t2) (LeafNode leaf) (buffer_pool_manager t2)
               in Inr (t2\<lparr>buffer_pool_manager := snd (UnpinPage (root_page_id t2) True bp3)\<rparr>))))"

text \<open>
  \<open>Split\<close> for a leaf: a new page, initialised with the parent of the node, takes the
  upper half.
\<close>

definition Split_leaf :: "page_id_t \<Rightarrow> ('k, 'v) BPlusTree \<Rightarrow> fault + page_id_t \<times> ('k, 'v) BPlusTree" where
  "Split_leaf node t =
     (case NewPage (buffer_pool_manager t) of
        (page_id, bp1) \<Rightarrow>
          bindf (the_leaf bp1 node) (\<lambda>n.
            let new_node = Leaf_Init page_id (lp_parent_page_id n) (bp_raw bp1)
            in bindf (Leaf_MoveHalfTo n new_node) (\<lambda>(n', new_node').
                 Inr (page_id,
                      t\<lparr>buffer_pool_manager :=
                           set_page page_id (LeafNode new_node') (set_page node (LeafNode n') bp1)\<rparr>))))"

text \<open>
  \<open>InsertIntoLeaf\<close>. The names \<open>btree_laef_page\<close> and \<open>btree_new_leaf_page\<close> are read as
  the declared \<open>btree_leaf_page\<close> and \<open>btree_new_laef_page\<close>. \<open>InsertIntoParent\<close> assigns a
  page id to a page pointer and uses names that nothing declares (\<open>new_old\<close>,
  \<open>btree_parent_page\<close>), so it has no behaviour to translate; it is the parameter \<open>iip\<close>
  here, and no run reaches it (lemma \<open>InsertIntoLeaf_iip\<close>).
\<close>

definition leaf_upd ::
  "page_id_t \<Rightarrow> (('k, 'v) LeafPage \<Rightarrow> fault + 'a \<times> ('k, 'v) LeafPage) \<Rightarrow> ('k, 'v) BPlusTree
     \<Rightarrow> fault + 'a \<times> ('k, 'v) BPlusTree"
where
  "leaf_upd pid f t =
     bindf (the_leaf (buffer_pool_manager t) pid) (\<lambda>lp.
     bindf (f lp) (\<lambda>(r, lp').
       Inr (r, t\<lparr>buffer_pool_manager := set_page pid (LeafNode lp') (buffer_pool_manager t)\<rparr>)))"

definition unpin_tree :: "page_id_t \<Rightarrow> bool \<Rightarrow> ('k, 'v) BPlusTree \<Rightarrow> ('k, 'v) BPlusTree" where
  "unpin_tree pid is_dirty t =
     t\<lparr>buffer_pool_manager := snd (UnpinPage pid is_dirty (buffer_pool_manager t))\<rparr>"

definition InsertIntoLeaf ::
  "(page_id_t \<Rightarrow> 'k \<Rightarrow> page_id_t \<Rightarrow> ('k, 'v) BPlusTree \<Rightarrow> fault + ('k, 'v) BPlusTree)
     \<Rightarrow> nat \<Rightarrow> 'k::linorder \<Rightarrow> 'v \<Rightarrow> ('k, 'v) BPlusTree
     \<Rightarrow> (fault + bool \<times> ('k, 'v) BPlusTree) option"
where
  "InsertIntoLeaf iip fuel key val t =
     (case FindLeafPage fuel key False t of
        None \<Rightarrow> None
      | Some (Inl e) \<Rightarrow> Some (Inl e)
      | Some (Inr (leaf, t1)) \<Rightarrow>
          Some (bindf (the_leaf (buffer_pool_manager t1) leaf) (\<lambda>lp.
                bindf (Leaf_Lookup key lp) (\<lambda>tmp.
                  case tmp of
                    Some _ \<Rightarrow> Inr (False, t1)
                  | None \<Rightarrow>
                      bindf
                        (if lp_size lp < lp_max_size lp
                         then map_sum id snd (leaf_upd leaf (Leaf_Insert key val) t1)
                         else
                           bindf (Split_leaf leaf t1) (\<lambda>(new_leaf, t2).
                           bindf (the_leaf (buffer_pool_manager t2) leaf) (\<lambda>l.
                           bindf (leaf_upd new_leaf
                                    (\<lambda>n. Inr ((), n\<lparr>lp_next_page_id := lp_next_page_id l\<rparr>)) t2)
                             (\<lambda>(_, t3).
                           bindf (leaf_upd leaf
                                    (\<lambda>n. Inr ((), n\<lparr>lp_next_page_id := new_leaf\<rparr>)) t3)
                             (\<lambda>(_, t4).
                           bindf (the_leaf (buffer_pool_manager t4) new_leaf) (\<lambda>nl.
                           bindf (Leaf_KeyAt nl 0) (\<lambda>mid_key.
                           bindf (iip leaf mid_key new_leaf t4) (\<lambda>t5.
                           bindf (if key < mid_key
                                  then leaf_upd leaf (Leaf_Insert key val) t5
                                  else leaf_upd new_leaf (Leaf_Insert key val) t5)
                             (\<lambda>(_, t6). Inr (unpin_tree new_leaf True t6))))))))))
                        (\<lambda>t7. Inr (True, unpin_tree (lp_page_id lp) True t7))))))"

definition BPT_Insert ::
  "(page_id_t \<Rightarrow> 'k \<Rightarrow> page_id_t \<Rightarrow> ('k, 'v) BPlusTree \<Rightarrow> fault + ('k, 'v) BPlusTree)
     \<Rightarrow> nat \<Rightarrow> 'k::linorder \<Rightarrow> 'v \<Rightarrow> ('k, 'v) BPlusTree
     \<Rightarrow> (fault + bool \<times> ('k, 'v) BPlusTree) option"
where
  "BPT_Insert iip fuel key val t =
     (if IsEmpty t then Some (map_sum id (\<lambda>t'. (True, t')) (StartNewTree key val t))
      else InsertIntoLeaf iip fuel key val t)"

text \<open>
  \<open>Remove\<close>: nothing on an empty tree; otherwise \<open>FindLeafPage\<close>, and a call of
  \<open>CoalesceOrRedistribute\<close> when the leaf is below its minimal size. The name
  \<open>btree_leaef_page\<close> is read as \<open>btree_leaf_page\<close>. \<open>CoalesceOrRedistribute\<close> returns
  \<open>false\<close> and does nothing else.
\<close>

definition CoalesceOrRedistribute :: "page_id_t \<Rightarrow> ('k, 'v) BPlusTree \<Rightarrow> bool \<times> ('k, 'v) BPlusTree" where
  "CoalesceOrRedistribute node t = (False, t)"

text \<open>
  Modelled from the spec: \<open>GetSize\<close> and \<open>GetMinSize\<close> of the common page header, which
  are defined in a file outside the sources. The minimal size is half of the maximal
  size, rounded up.
\<close>

definition node_size :: "('k, 'v) node \<Rightarrow> int" where
  "node_size n =
     (case n of LeafNode l \<Rightarrow> lp_size l | InternalNode i \<Rightarrow> ip_size i | HeaderNode h \<Rightarrow> 0)"

definition node_min_size :: "('k, 'v) node \<Rightarrow> int" where
  "node_min_size n =
     (case n of
        LeafNode l \<Rightarrow> (lp_max_size l + 1) div 2
      | InternalNode i \<Rightarrow> (ip_max_size i + 1) div 2
      | HeaderNode h \<Rightarrow> 0)"

definition BPT_Remove ::
  "nat \<Rightarrow> 'k::linorder \<Rightarrow> ('k, 'v) BPlusTree \<Rightarrow> (fault + ('k, 'v) BPlusTree) option"
where
  "BPT_Remove fuel key t =
     (if IsEmpty t then Some (Inr t)
      else case FindLeafPage fuel key False t of
             None \<Rightarrow> None
           | Some (Inl e) \<Rightarrow> Some (Inl e)
           | Some (Inr (leaf, t1)) \<Rightarrow>
               (case get_page (buffer_pool_manager t1) leaf of
                  None \<Rightarrow> Some (Inl NullPointer)
                | Some n \<Rightarrow>
                    if node_size n < node_min_size n
                    then Some (Inr (snd (CoalesceOrRedistribute leaf t1)))
                    else Some (Inr t1)))"

text \<open>
  A pool that holds the empty header page only, with \<open>raw\<close> as the slots of new frames,
  and the index constructed on it with no root.
\<close>

definition pool_init :: "('k \<times> 'v) list \<Rightarrow> ('k, 'v) BufferPoolManager" where
  "pool_init raw =
     \<lparr>bp_pages = [(HEADER_PAGE_ID, HeaderNode [])], bp_pin_count = [],
      bp_next_page_id = 1, bp_raw = raw, bp_fetched = 0, bp_unpinned = 0\<rparr>"

definition BPlusTree_new :: "string \<Rightarrow> ('k \<times> 'v) list \<Rightarrow> ('k, 'v) BPlusTree" where
  "BPlusTree_new name raw =
     \<lparr>index_name = name, root_page_id = INVALID_PAGE_ID, buffer_pool_manager = pool_init raw\<rparr>"

text \<open>What \<open>GetValue\<close> reports: its return value and the \<open>result\<close> vector.\<close>

definition values_of ::
  "(fault + bool \<times> 'v list \<times> ('k, 'v) BPlusTree) option \<Rightarrow> (bool \<times> 'v list) option"
where
  "values_of r = (case r of Some (Inr (b, vs, _)) \<Rightarrow> Some (b, vs) | _ \<Rightarrow> None)"

section \<open>LRU replacer: proofs\<close>

lemma lru_inv_init: "lru_inv (LRU_new, Map.empty, 0)"
  by (simp add: lru_inv_def LRU_new_def)

lemma sorted_wrt_remove1:
  "sorted_wrt P xs \<Longrightarrow> sorted_wrt P (remove1 x xs)"
  by (induction xs) (auto dest: notin_set_remove1)

lemma sorted_wrt_cong_set:
  "sorted_wrt P xs \<Longrightarrow> (\<And>a b. a \<in> set xs \<Longrightarrow> b \<in> set xs \<Longrightarrow> P a b \<Longrightarrow> Q a b) \<Longrightarrow> sorted_wrt Q xs"
  by (induction xs) auto

lemma lru_inv_Insert:
  assumes "lru_inv (r, st, t)"
  shows "lru_inv (LRU_Insert v r, st(v \<mapsto> t), Suc t)"
proof -
  let ?l = "lru_list r"
  from assms have d: "distinct ?l" and m: "lru_map r = set ?l" and dm: "dom st = set ?l"
    and lt: "\<And>x n. st x = Some n \<Longrightarrow> n < t"
    and so: "sorted_wrt (\<lambda>a b. the (st b) < the (st a)) ?l"
    by (auto simp: lru_inv_def)
  have l': "lru_list (LRU_Insert v r) = v # remove1 v ?l"
    by (simp add: LRU_Insert_def Let_def m remove1_idem)
  have m': "lru_map (LRU_Insert v r) = insert v (set ?l)"
    by (simp add: LRU_Insert_def Let_def m)
  have s1: "sorted_wrt (\<lambda>a b. the (st b) < the (st a)) (remove1 v ?l)"
    using so by (rule sorted_wrt_remove1)
  have nv: "v \<notin> set (remove1 v ?l)" using d by simp
  have s2: "sorted_wrt (\<lambda>a b. the ((st(v \<mapsto> t)) b) < the ((st(v \<mapsto> t)) a)) (remove1 v ?l)"
    using s1 nv by (rule_tac sorted_wrt_cong_set[OF s1]) auto
  have old: "\<And>y. y \<in> set (remove1 v ?l) \<Longrightarrow> the (st y) < t"
  proof -
    fix y assume "y \<in> set (remove1 v ?l)"
    then have "y \<in> set ?l" by (meson notin_set_remove1)
    then obtain n where "st y = Some n" using dm by auto
    then show "the (st y) < t" using lt by auto
  qed
  show ?thesis
    unfolding lru_inv_def
    using d dm lt s2 nv old
    by (auto simp: l' m' less_Suc_eq dest: lt)
qed


lemma lru_inv_remove:
  assumes "lru_inv (r, st, t)"
  shows "lru_inv (\<lparr>lru_list = remove1 v (lru_list r), lru_map = lru_map r - {v}\<rparr>, st(v := None), Suc t)"
proof -
  let ?l = "lru_list r"
  from assms have d: "distinct ?l" and m: "lru_map r = set ?l" and dm: "dom st = set ?l"
    and lt: "\<And>x n. st x = Some n \<Longrightarrow> n < t"
    and so: "sorted_wrt (\<lambda>a b. the (st b) < the (st a)) ?l"
    by (auto simp: lru_inv_def)
  have s1: "sorted_wrt (\<lambda>a b. the (st b) < the (st a)) (remove1 v ?l)"
    using so by (rule sorted_wrt_remove1)
  have nv: "v \<notin> set (remove1 v ?l)" using d by simp
  have s2: "sorted_wrt (\<lambda>a b. the ((st(v := None)) b) < the ((st(v := None)) a)) (remove1 v ?l)"
    using nv by (rule_tac sorted_wrt_cong_set[OF s1]) auto
  have st: "set (remove1 v ?l) = set ?l - {v}" using d by simp
  show ?thesis
    unfolding lru_inv_def
    using d dm s2 st m
    by (auto simp: less_Suc_eq dest: lt split: if_splits)
qed

lemma lru_inv_Erase:
  assumes "lru_inv (r, st, t)"
  shows "lru_inv (snd (LRU_Erase v r), st(v := None), Suc t)"
proof (cases "v \<in> lru_map r")
  case True
  then show ?thesis using lru_inv_remove[OF assms, of v] by (simp add: LRU_Erase_def)
next
  case False
  with assms have "st v = None" by (auto simp: lru_inv_def)
  then have "st(v := None) = st" by auto
  with False assms show ?thesis
    by (auto simp: LRU_Erase_def lru_inv_def less_Suc_eq)
qed

lemma remove1_last_distinct: "distinct xs \<Longrightarrow> xs \<noteq> [] \<Longrightarrow> remove1 (last xs) xs = butlast xs"
  by (induction xs) (auto)

lemma lru_inv_Victim:
  assumes "lru_inv (r, st, t)"
  shows "lru_inv (stamp_step (r, st, t) OpVictim)"
proof (cases "lru_list r = []")
  case True
  with assms show ?thesis by (auto simp: LRU_Victim_def lru_inv_def less_Suc_eq)
next
  case False
  from assms have d: "distinct (lru_list r)" by (simp add: lru_inv_def)
  show ?thesis
    using lru_inv_remove[OF assms, of "last (lru_list r)"] False
    by (simp add: LRU_Victim_def Let_def remove1_last_distinct[OF d False])
qed

lemma lru_inv_step: "lru_inv c \<Longrightarrow> lru_inv (stamp_step c x)"
proof -
  assume a: "lru_inv c"
  obtain r st t where c: "c = (r, st, t)" by (cases c) auto
  show ?thesis
  proof (cases x)
    case (OpInsert v) then show ?thesis using lru_inv_Insert a c by simp
  next
    case OpVictim then show ?thesis using lru_inv_Victim a c by simp
  next
    case (OpErase v) then show ?thesis using lru_inv_Erase a c by simp
  qed
qed

lemma lru_inv_foldl: "lru_inv c \<Longrightarrow> lru_inv (foldl stamp_step c ops)"
  by (induction ops arbitrary: c) (simp_all add: lru_inv_step)

lemma lru_inv_run: "lru_inv (stamp_run ops)"
  unfolding stamp_run_def by (rule lru_inv_foldl[OF lru_inv_init])

lemma fst_stamp_step: "fst (stamp_step c x) = lru_step (fst c) x"
  by (cases c; cases x) (auto split: prod.splits option.splits)

lemma fst_stamp_foldl: "fst (foldl stamp_step c ops) = foldl lru_step (fst c) ops"
  by (induction ops arbitrary: c) (auto simp: fst_stamp_step)

lemma fst_stamp_run: "fst (stamp_run ops) = lru_run ops"
  by (simp add: stamp_run_def lru_run_def fst_stamp_foldl)

lemma sorted_wrt_last_least:
  "sorted_wrt P xs \<Longrightarrow> xs \<noteq> [] \<Longrightarrow> y \<in> set (butlast xs) \<Longrightarrow> P y (last xs)"
  by (induction xs) (auto split: if_splits)

lemma set_butlast_last: "xs \<noteq> [] \<Longrightarrow> set xs = insert (last xs) (set (butlast xs))"
  by (induction xs) auto

lemma lru_victim_oldest:
  assumes inv: "lru_inv (r, st, t)" and v: "LRU_Victim r = (Some x, r')"
  shows "\<exists>n. st x = Some n \<and> (\<forall>y m. st y = Some m \<longrightarrow> n \<le> m)"
proof -
  from v have ne: "lru_list r \<noteq> []" and x: "x = last (lru_list r)"
    by (auto simp: LRU_Victim_def Let_def split: if_splits)
  from inv have d: "distinct (lru_list r)" and dm: "dom st = set (lru_list r)"
    and so: "sorted_wrt (\<lambda>a b. the (st b) < the (st a)) (lru_list r)"
    by (auto simp: lru_inv_def)
  from ne x dm obtain n where n: "st x = Some n" by (metis domD last_in_set)
  have "n \<le> m" if "st y = Some m" for y m
  proof (cases "y = x")
    case True with n that show ?thesis by simp
  next
    case False
    from that dm have "y \<in> set (lru_list r)" by auto
    with False x set_butlast_last[OF ne] have "y \<in> set (butlast (lru_list r))"
      by auto
    from sorted_wrt_last_least[OF so ne this] x n that show ?thesis by simp
  qed
  with n show ?thesis by blast
qed


lemma lru_scenario:
  "fst (LRU_Victim (lru_run [OpInsert (1::int), OpInsert 2, OpInsert 3])) = Some 1 \<and>
   fst (LRU_Victim (lru_run [OpInsert (1::int), OpInsert 2, OpInsert 3, OpVictim, OpInsert 2])) = Some 3 \<and>
   fst (LRU_Victim (lru_run [OpInsert (1::int), OpInsert 2, OpInsert 3, OpVictim, OpInsert 2, OpVictim])) = Some 2 \<and>
   fst (LRU_Victim (lru_run [OpInsert (1::int), OpInsert 2, OpInsert 3, OpVictim, OpInsert 2, OpVictim, OpVictim])) = None"
  by (simp add: lru_run_def LRU_new_def LRU_Insert_def LRU_Victim_def LRU_Erase_def Let_def)

text \<open>
  Claim C8. After any sequence of \<open>Insert\<close>, \<open>Victim\<close> and \<open>Erase\<close> calls, \<open>Victim\<close>
  fails exactly when the replacer is empty, that is, when no value is live; otherwise it
  removes and returns the live value whose last insert is the oldest. In the concrete
  run, after inserting 1, 2, 3 the victim is 1; after a further insert of 2 the victims
  are 3, then 2, then none.
\<close>

theorem lru_victim_order:
  assumes run: "stamp_run ops = (r, st, t)"
  shows "r = lru_run ops \<and>
     (fst (LRU_Victim r) = None \<longleftrightarrow> LRU_Size r = 0) \<and>
     (LRU_Size r = 0 \<longleftrightarrow> dom st = {}) \<and>
     (\<forall>x r'. LRU_Victim r = (Some x, r') \<longrightarrow>
        (\<exists>n. st x = Some n \<and> (\<forall>y m. st y = Some m \<longrightarrow> n \<le> m)) \<and>
        set (lru_list r') = set (lru_list r) - {x} \<and>
        LRU_Size r' + 1 = LRU_Size r) \<and>
     fst (LRU_Victim (lru_run [OpInsert (1::int), OpInsert 2, OpInsert 3])) = Some 1 \<and>
     fst (LRU_Victim (lru_run [OpInsert (1::int), OpInsert 2, OpInsert 3, OpVictim, OpInsert 2])) = Some 3 \<and>
     fst (LRU_Victim (lru_run [OpInsert (1::int), OpInsert 2, OpInsert 3, OpVictim, OpInsert 2, OpVictim])) = Some 2 \<and>
     fst (LRU_Victim (lru_run [OpInsert (1::int), OpInsert 2, OpInsert 3, OpVictim, OpInsert 2, OpVictim, OpVictim])) = None"
proof -
  have inv: "lru_inv (r, st, t)" using lru_inv_run[of ops] run by simp
  have a: "r = lru_run ops" using fst_stamp_run[of ops] run by simp
  have b: "fst (LRU_Victim r) = None \<longleftrightarrow> LRU_Size r = 0"
    by (simp add: LRU_Victim_def LRU_Size_def Let_def)
  have c: "LRU_Size r = 0 \<longleftrightarrow> dom st = {}"
    using inv by (simp add: lru_inv_def LRU_Size_def)
  have d: "(\<exists>n. st x = Some n \<and> (\<forall>y m. st y = Some m \<longrightarrow> n \<le> m)) \<and>
        set (lru_list r') = set (lru_list r) - {x} \<and> LRU_Size r' + 1 = LRU_Size r"
    if v: "LRU_Victim r = (Some x, r')" for x r'
  proof -
    from v have ne: "lru_list r \<noteq> []" and x: "x = last (lru_list r)"
      and r': "lru_list r' = butlast (lru_list r)"
      by (auto simp: LRU_Victim_def Let_def split: if_splits)
    from inv have dist: "distinct (lru_list r)" by (simp add: lru_inv_def)
    have "set (butlast (lru_list r)) = set (lru_list r) - {last (lru_list r)}"
      using remove1_last_distinct[OF dist ne] dist by (metis set_remove1_eq)
    with lru_victim_oldest[OF inv v] ne show ?thesis
      by (simp add: r' x LRU_Size_def)
  qed
  from a b c d lru_scenario show ?thesis by blast
qed

text \<open>
  The theorem at the run \<open>Insert 1, Insert 2, Insert 1\<close>: the victim is 2, whose last
  insert (operation 1) is older than that of 1 (operation 2).
\<close>

theorem lru_victim_order_witness:
  "fst (stamp_run [OpInsert (1::int), OpInsert 2, OpInsert 1]) = \<lparr>lru_list = [1, 2], lru_map = {1, 2}\<rparr> \<and>
   fst (snd (stamp_run [OpInsert (1::int), OpInsert 2, OpInsert 1])) 1 = Some 2 \<and>
   fst (snd (stamp_run [OpInsert (1::int), OpInsert 2, OpInsert 1])) 2 = Some 1 \<and>
   LRU_Victim \<lparr>lru_list = [1, 2], lru_map = {1, 2}\<rparr> = (Some (2::int), \<lparr>lru_list = [1], lru_map = {1}\<rparr>) \<and>
   the (fst (snd (stamp_run [OpInsert (1::int), OpInsert 2, OpInsert 1])) 2)
     \<le> the (fst (snd (stamp_run [OpInsert (1::int), OpInsert 2, OpInsert 1])) 1)"
proof -
  let ?ops = "[OpInsert (1::int), OpInsert 2, OpInsert 1]"
  let ?R = "\<lparr>lru_list = [1::int, 2], lru_map = {1, 2}\<rparr>"
  let ?ST = "fst (snd (stamp_run ?ops))"
  have r: "fst (stamp_run ?ops) = ?R"
    by (simp add: stamp_run_def LRU_new_def LRU_Insert_def Let_def insert_commute)
  have s1: "?ST 1 = Some 2" and s2: "?ST 2 = Some 1"
    by (simp_all add: stamp_run_def)
  have h: "stamp_run ?ops = (?R, ?ST, snd (snd (stamp_run ?ops)))"
    using r by (metis prod.collapse)
  have v: "LRU_Victim ?R = (Some 2, \<lparr>lru_list = [1], lru_map = {1}\<rparr>)"
    by (auto simp add: LRU_Victim_def Let_def)
  note A = lru_victim_order[OF h, THEN conjunct2, THEN conjunct2, THEN conjunct2, THEN conjunct1]
  from A v have "\<exists>n. ?ST 2 = Some n \<and> (\<forall>y m. ?ST y = Some m \<longrightarrow> n \<le> m)"
    by blast
  with s1 have "the (?ST 2) \<le> the (?ST 1)" by auto
  with r s1 s2 v show ?thesis by blast
qed

section \<open>Extendible hash table: proofs\<close>

subsection \<open>The bit macros\<close>

text \<open>
  For a depth below 31 the mask of \<open>GETBIT\<close> is \<open>2^(y+1) - 1\<close>: the macro keeps the low
  \<open>y+1\<close> bits of the hash value. From depth 31 on it faults.
\<close>

lemma mask_diff_push_bit:
  "mask (n + m) - push_bit n (mask m :: nat) = (mask n :: nat)"
proof -
  have a: "(1::nat) \<le> 2 ^ n" and b: "(1::nat) \<le> 2 ^ m" by simp_all
  have c: "(2::nat) ^ n \<le> 2 ^ n * 2 ^ m" using b by simp
  have "push_bit n (mask m :: nat) = 2 ^ n * 2 ^ m - 2 ^ n"
    by (simp add: push_bit_eq_mult mask_eq_exp_minus_1 diff_mult_distrib2 mult.commute)
  moreover have "(mask (n + m) :: nat) = 2 ^ n * 2 ^ m - 1"
    by (simp add: mask_eq_exp_minus_1 power_add)
  moreover have "(mask n :: nat) = 2 ^ n - 1" by (simp add: mask_eq_exp_minus_1)
  ultimately show ?thesis using a c by linarith
qed

lemma GETBIT_mod:
  assumes "y < 31"
  shows "GETBIT x y = Inr (x mod 2 ^ (y + 1))"
proof -
  let ?n = "y + 1"
  have n: "?n + (32 - ?n) = 32" using assms by simp
  have m32: "(4294967295::nat) = mask 32" by (simp add: mask_eq_exp_minus_1)
  have p32: "(4294967296::nat) = 2 ^ 32" by simp
  have "push_bit ?n (mask 32 :: nat) mod 2 ^ 32 = take_bit 32 (push_bit ?n (mask 32 :: nat))"
    by (simp only: take_bit_eq_mod)
  also have "\<dots> = push_bit ?n (take_bit (32 - ?n) (mask 32 :: nat))"
    by (simp only: take_bit_push_bit)
  also have "\<dots> = push_bit ?n (mask (32 - ?n) :: nat)"
    by (simp add: take_bit_of_mask)
  finally have e: "push_bit ?n (mask 32 :: nat) mod 2 ^ 32 = push_bit ?n (mask (32 - ?n))" .
  have "mask 32 - push_bit ?n (mask (32 - ?n) :: nat) = (mask ?n :: nat)"
    using mask_diff_push_bit[of ?n "32 - ?n"] by (simp only: n)
  then have "x AND (4294967295 - push_bit ?n 4294967295 mod 4294967296) = x AND mask ?n"
    unfolding m32 p32 e by simp
  also have "\<dots> = x mod 2 ^ ?n"
    by (simp only: take_bit_eq_mod flip: take_bit_eq_mask)
  finally show ?thesis using assms by (simp add: GETBIT_def)
qed

lemma GETBIT_overflow: "31 \<le> y \<Longrightarrow> GETBIT x y = Inl ShiftOverflow"
  by (simp add: GETBIT_def)

text \<open>Both facts as the equation by which \<open>GETBIT\<close> is evaluated.\<close>

lemma GETBIT_code [code]:
  "GETBIT x y = (if y < 31 then Inr (x mod 2 ^ (y + 1)) else Inl ShiftOverflow)"
  by (simp add: GETBIT_mod GETBIT_overflow)

subsection \<open>Buckets\<close>







subsection \<open>The directory\<close>

lemma length_resize: "length (resize n bs) = n"
  by (simp add: resize_def)

lemma length_expand_loop:
  "expand_loop hp g is bs = Inr bs' \<Longrightarrow> length bs' = length bs"
proof (induction "is" arbitrary: bs)
  case Nil
  then show ?case by simp
next
  case (Cons i "is")
  from Cons.prems have a: "\<not> length bs \<le> i" by (simp split: if_splits)
  show ?case
  proof (cases "case bs ! i of None \<Rightarrow> True | Some a \<Rightarrow> local_depth (hp ! a) < g")
    case True
    with Cons.prems a obtain j where j: "SETBIT i g = Inr j"
      by (cases "SETBIT i g") simp_all
    with Cons.prems a True have b: "\<not> length bs \<le> j"
      and c: "expand_loop hp g is (bs[j := bs ! i]) = Inr bs'"
      by (simp_all split: if_splits)
    from Cons.IH[OF c] show ?thesis by simp
  next
    case False
    with Cons.prems a have "expand_loop hp g is bs = Inr bs'" by simp
    from Cons.IH[OF this] show ?thesis .
  qed
qed

text \<open>
  \<open>expand\<close> returns for a new depth below 30 only, and then with \<open>2^(g+1)\<close> slots; from
  depth 30 on it faults at the size of the resize.
\<close>

lemma expand_overflow: "30 \<le> g \<Longrightarrow> expand hp g i a bs = Inl ShiftOverflow"
  by (simp add: expand_def shl1_def)

lemma length_expand:
  assumes "expand hp g i a bs = Inr bs'"
  shows "g < 30 \<and> length bs' = 2 ^ (g + 1)"
proof -
  have g: "g < 30"
  proof (rule ccontr)
    assume "\<not> g < 30"
    then have "expand hp g i a bs = Inl ShiftOverflow" by (simp add: expand_overflow)
    with assms show False by simp
  qed
  then have s1: "shl1 (g + 1) = Inr (2 ^ (g + 1))" and s0: "shl1 g = Inr (2 ^ g)"
    by (simp_all add: shl1_def)
  let ?bs1 = "resize (2 ^ (g + 1)) bs"
  from assms have "expand_loop hp g [0 ..< 2 ^ g] (?bs1[i := Some a]) = Inr bs'"
    unfolding expand_def s1 s0 by (simp add: Let_def split: if_splits)
  from length_expand_loop[OF this] have "length bs' = 2 ^ (g + 1)"
    by (simp add: length_resize)
  with g show ?thesis by simp
qed

lemma dir_shape_new: "dir_shape (EH_new sz)"
  by (simp add: dir_shape_def EH_new_def)

lemma dir_shape_Insert:
  assumes sh: "dir_shape t" and ins: "EH_Insert h k v t = Inr t'"
  shows "dir_shape t'"
proof -
  from ins obtain i where sl: "eh_slot h t k = Inr i"
    by (cases "eh_slot h t k") (simp_all add: EH_Insert_def)
  from ins sl have inr: "\<not> length (buckets t) \<le> i"
    by (auto simp: EH_Insert_def)
  show ?thesis
  proof (cases "buckets t ! i")
    case None
    with ins sl inr have
      "t' = t\<lparr>buckets := (buckets t)[i := Some (length (eh_heap t))],
               eh_heap := eh_heap t @ [snd (Put k v (Bucket_new i 0 (eh_bucket_size t)))]\<rparr>"
      by (simp add: EH_Insert_def)
    with sh show ?thesis by (simp add: dir_shape_def)
  next
    case (Some a)
    obtain ok b where put: "Put k v (eh_heap t ! a) = (ok, b)" by (cases "Put k v (eh_heap t ! a)")
    show ?thesis
    proof (cases ok)
      case True
      with ins sl inr Some put have "t' = t\<lparr>eh_heap := (eh_heap t)[a := b]\<rparr>"
        by (simp add: EH_Insert_def)
      with sh show ?thesis by (simp add: dir_shape_def)
    next
      case False
      with ins sl inr Some put obtain b' nb where sp: "Split h b = Inr (b', nb)"
        by (cases "Split h b") (auto simp: EH_Insert_def)
      let ?hp = "(eh_heap t)[a := b'] @ [nb]"
      show ?thesis
      proof (cases "global_depth t < local_depth b'")
        case True
        with ins sl inr Some put False sp obtain bs where
          ex: "expand ?hp (global_depth t + 1) (bucket_id nb) (length (eh_heap t)) (buckets t) = Inr bs"
          and t': "t' = t\<lparr>global_depth := global_depth t + 1, buckets := bs, eh_heap := ?hp\<rparr>"
          by (simp add: EH_Insert_def Let_def split: sum.splits)
        from length_expand[OF ex] t' show ?thesis by (simp add: dir_shape_def)
      next
        case nlt: False
        with ins sl inr Some put False sp have
          "t' = t\<lparr>buckets := (buckets t)[bucket_id nb := Some (length (eh_heap t))], eh_heap := ?hp\<rparr>"
          by (simp add: EH_Insert_def Let_def split: if_splits)
        with sh show ?thesis by (simp add: dir_shape_def)
      qed
    qed
  qed
qed

lemma dir_shape_Remove:
  assumes "dir_shape t" and "EH_Remove h k t = Inr (r, t')"
  shows "dir_shape t'"
  using assms
  by (simp add: EH_Remove_def dir_shape_def split: if_splits option.splits prod.splits sum.splits)
     auto

lemma dir_shape_step:
  assumes "eh_step h r x = Inr t'" and "\<And>t. r = Inr t \<Longrightarrow> dir_shape t"
  shows "dir_shape t'"
proof (cases r)
  case (Inl e)
  with assms(1) show ?thesis by simp
next
  case (Inr t)
  with assms(2) have s: "dir_shape t" by simp
  show ?thesis
  proof (cases x)
    case (EInsert k v)
    with Inr assms(1) have "EH_Insert h k v t = Inr t'" by simp
    with s show ?thesis by (rule dir_shape_Insert)
  next
    case (ERemove k)
    with Inr assms(1) have m: "map_sum id snd (EH_Remove h k t) = Inr t'" by simp
    then obtain b where "EH_Remove h k t = Inr (b, t')"
      by (cases "EH_Remove h k t") (simp, case_tac b, simp)
    with s show ?thesis by (rule dir_shape_Remove)
  qed
qed

lemma dir_shape_run: "eh_run h sz ops = Inr t \<Longrightarrow> dir_shape t"
proof (induction ops arbitrary: t rule: rev_induct)
  case Nil
  then have "t = EH_new sz" by (simp add: eh_run_def)
  then show ?case by (simp add: dir_shape_new)
next
  case (snoc x xs)
  from snoc.prems have "eh_step h (eh_run h sz xs) x = Inr t"
    by (simp add: eh_run_def)
  then show ?case using snoc.IH by (rule dir_shape_step)
qed

text \<open>
  The store invariant over the runs: slots hold addresses of the store and local depths
  stay at most the global depth. So the shifts of \<open>Split\<close> are defined in every state a
  run reaches, and the one shift that can fault is the new size in \<open>expand\<close>.
\<close>

lemma local_depth_Put: "local_depth (snd (Put k v b)) = local_depth b"
  by (simp add: Put_def Let_def)

lemma local_depth_split_loop:
  "split_loop h ld d nb = Inr (kept, nb') \<Longrightarrow> local_depth nb' = local_depth nb"
proof (induction d arbitrary: nb kept)
  case Nil
  then show ?case by simp
next
  case (Cons p d)
  obtain k v where p: "p = (k, v)" by (cases p)
  from Cons.prems p obtain z where z: "ISZERO (h k) ld = Inr z"
    by (cases "ISZERO (h k) ld") simp_all
  show ?case
  proof (cases z)
    case True
    with Cons.prems p z obtain kept' where "split_loop h ld d nb = Inr (kept', nb')"
      by (cases "split_loop h ld d nb") auto
    then show ?thesis by (rule Cons.IH)
  next
    case False
    with Cons.prems p z have "split_loop h ld d (snd (Put k v nb)) = Inr (kept, nb')" by simp
    from Cons.IH[OF this] show ?thesis by (simp add: local_depth_Put)
  qed
qed

lemma local_depth_Split:
  assumes "Split h b = Inr (b', nb)"
  shows "local_depth b' = local_depth b + 1 \<and> local_depth nb = local_depth b + 1"
proof -
  let ?ld = "local_depth b + 1"
  from assms obtain i where i: "SETBIT (bucket_id b) ?ld = Inr i"
    by (cases "SETBIT (bucket_id b) ?ld") (simp_all add: Split_def)
  with assms obtain kept where
    l: "split_loop h ?ld (bucket_data b) (Bucket_new i ?ld (bucket_size b)) = Inr (kept, nb)"
    and b': "b' = b\<lparr>local_depth := ?ld, bucket_data := kept\<rparr>"
    by (cases "split_loop h ?ld (bucket_data b) (Bucket_new i ?ld (bucket_size b))")
       (auto simp: Split_def)
  from local_depth_split_loop[OF l] b' show ?thesis by (simp add: Bucket_new_def)
qed

lemma set_expand_loop:
  "expand_loop hp g is bs = Inr bs' \<Longrightarrow> set bs' \<subseteq> set bs"
proof (induction "is" arbitrary: bs)
  case Nil
  then show ?case by simp
next
  case (Cons i "is")
  from Cons.prems have a: "i < length bs" by (simp split: if_splits)
  show ?case
  proof (cases "case bs ! i of None \<Rightarrow> True | Some a \<Rightarrow> local_depth (hp ! a) < g")
    case True
    with Cons.prems a obtain j where j: "SETBIT i g = Inr j"
      by (cases "SETBIT i g") simp_all
    with Cons.prems a True have c: "expand_loop hp g is (bs[j := bs ! i]) = Inr bs'"
      by (simp_all split: if_splits)
    have "set (bs[j := bs ! i]) \<subseteq> insert (bs ! i) (set bs)" by (rule set_update_subset_insert)
    with a have "set (bs[j := bs ! i]) \<subseteq> set bs" by auto
    with Cons.IH[OF c] show ?thesis by blast
  next
    case False
    with Cons.prems a have "expand_loop hp g is bs = Inr bs'" by simp
    from Cons.IH[OF this] show ?thesis .
  qed
qed

lemma set_expand:
  assumes "expand hp g i a bs = Inr bs'"
  shows "set bs' \<subseteq> insert (Some a) (insert None (set bs))"
proof -
  from assms obtain n where n: "shl1 (g + 1) = Inr n"
    by (cases "shl1 (g + 1)") (simp_all add: expand_def)
  with assms obtain m where m: "shl1 g = Inr m"
    by (cases "shl1 g") (simp_all add: expand_def Let_def split: if_splits)
  from assms n m have "expand_loop hp g [0 ..< m] ((resize n bs)[i := Some a]) = Inr bs'"
    by (simp add: expand_def Let_def split: if_splits)
  from set_expand_loop[OF this]
  have "set bs' \<subseteq> insert (Some a) (set (resize n bs))"
    using set_update_subset_insert by fastforce
  moreover have "set (resize n bs) \<subseteq> insert None (set bs)"
    by (auto simp: resize_def dest: in_set_takeD)
  ultimately show ?thesis by blast
qed

lemma heap_inv_new: "heap_inv (EH_new sz)"
  by (auto simp: heap_inv_def EH_new_def Bucket_new_def)

lemma heap_inv_Insert:
  assumes hi: "heap_inv t" and ins: "EH_Insert h k v t = Inr t'"
  shows "heap_inv t'"
proof -
  from hi have ad: "\<And>a. Some a \<in> set (buckets t) \<Longrightarrow> a < length (eh_heap t)"
    and ld: "\<And>b. b \<in> set (eh_heap t) \<Longrightarrow> local_depth b \<le> global_depth t"
    by (auto simp: heap_inv_def)
  from ins obtain i where sl: "eh_slot h t k = Inr i"
    by (cases "eh_slot h t k") (simp_all add: EH_Insert_def)
  from ins sl have inr: "i < length (buckets t)"
    by (auto simp: EH_Insert_def split: if_splits)
  show ?thesis
  proof (cases "buckets t ! i")
    case None
    with ins sl inr have t':
      "t' = t\<lparr>buckets := (buckets t)[i := Some (length (eh_heap t))],
               eh_heap := eh_heap t @ [snd (Put k v (Bucket_new i 0 (eh_bucket_size t)))]\<rparr>"
      by (simp add: EH_Insert_def)
    have "set ((buckets t)[i := Some (length (eh_heap t))])
            \<subseteq> insert (Some (length (eh_heap t))) (set (buckets t))"
      by (rule set_update_subset_insert)
    with ad have "\<And>a. Some a \<in> set (buckets t') \<Longrightarrow> a < length (eh_heap t')"
      unfolding t' by (auto simp: less_Suc_eq)
    moreover have "\<And>b. b \<in> set (eh_heap t') \<Longrightarrow> local_depth b \<le> global_depth t'"
      unfolding t' using ld by (auto simp: local_depth_Put Bucket_new_def)
    ultimately show ?thesis by (simp add: heap_inv_def)
  next
    case (Some a)
    with inr have "Some a \<in> set (buckets t)" by (metis nth_mem)
    then have a: "a < length (eh_heap t)" by (rule ad)
    then have lda: "local_depth (eh_heap t ! a) \<le> global_depth t" by (simp add: ld)
    obtain ok b where put: "Put k v (eh_heap t ! a) = (ok, b)" by (cases "Put k v (eh_heap t ! a)")
    then have ldb: "local_depth b = local_depth (eh_heap t ! a)"
      using local_depth_Put[of k v "eh_heap t ! a"] by simp
    show ?thesis
    proof (cases ok)
      case True
      with ins sl inr Some put have t': "t' = t\<lparr>eh_heap := (eh_heap t)[a := b]\<rparr>"
        by (simp add: EH_Insert_def)
      have "set ((eh_heap t)[a := b]) \<subseteq> insert b (set (eh_heap t))"
        by (rule set_update_subset_insert)
      with ld lda ldb have "\<And>c. c \<in> set (eh_heap t') \<Longrightarrow> local_depth c \<le> global_depth t'"
        unfolding t' by auto
      with ad show ?thesis unfolding t' by (simp add: heap_inv_def)
    next
      case False
      with ins sl inr Some put obtain b' nb where sp: "Split h b = Inr (b', nb)"
        by (cases "Split h b") (auto simp: EH_Insert_def)
      from local_depth_Split[OF sp] ldb
      have ldb': "local_depth b' = local_depth (eh_heap t ! a) + 1"
        and ldn: "local_depth nb = local_depth (eh_heap t ! a) + 1" by simp_all
      let ?hp = "(eh_heap t)[a := b'] @ [nb]"
      have hp: "set ?hp \<subseteq> insert b' (insert nb (set (eh_heap t)))"
        using set_update_subset_insert[of "eh_heap t" a b'] by auto
      show ?thesis
      proof (cases "global_depth t < local_depth b'")
        case True
        with ins sl inr Some put False sp obtain bs where
          ex: "expand ?hp (global_depth t + 1) (bucket_id nb) (length (eh_heap t)) (buckets t) = Inr bs"
          and t': "t' = t\<lparr>global_depth := global_depth t + 1, buckets := bs, eh_heap := ?hp\<rparr>"
          by (simp add: EH_Insert_def Let_def split: sum.splits)
        from set_expand[OF ex] ad
        have "\<And>c. Some c \<in> set (buckets t') \<Longrightarrow> c < length (eh_heap t')"
          unfolding t' by (auto simp: less_Suc_eq)
        moreover from hp ld lda ldb' ldn
        have "\<And>c. c \<in> set (eh_heap t') \<Longrightarrow> local_depth c \<le> global_depth t'"
          unfolding t' by (auto simp: le_Suc_eq)
        ultimately show ?thesis by (simp add: heap_inv_def)
      next
        case nlt: False
        with ins sl inr Some put False sp have t':
          "t' = t\<lparr>buckets := (buckets t)[bucket_id nb := Some (length (eh_heap t))], eh_heap := ?hp\<rparr>"
          by (simp add: EH_Insert_def Let_def split: if_splits)
        have "set ((buckets t)[bucket_id nb := Some (length (eh_heap t))])
                \<subseteq> insert (Some (length (eh_heap t))) (set (buckets t))"
          by (rule set_update_subset_insert)
        with ad have "\<And>c. Some c \<in> set (buckets t') \<Longrightarrow> c < length (eh_heap t')"
          unfolding t' by (auto simp: less_Suc_eq)
        moreover from hp ld nlt ldb' ldn
        have "\<And>c. c \<in> set (eh_heap t') \<Longrightarrow> local_depth c \<le> global_depth t'"
          unfolding t' by auto
        ultimately show ?thesis by (simp add: heap_inv_def)
      qed
    qed
  qed
qed

lemma local_depth_Bucket_Remove: "local_depth (snd (Bucket_Remove k b)) = local_depth b"
  by (simp add: Bucket_Remove_def split: option.splits)

lemma heap_inv_Remove:
  assumes hi: "heap_inv t" and rm: "EH_Remove h k t = Inr (r, t')"
  shows "heap_inv t'"
proof -
  from rm obtain i where sl: "eh_slot h t k = Inr i"
    by (cases "eh_slot h t k") (simp_all add: EH_Remove_def)
  from rm sl have inr: "i < length (buckets t)"
    by (auto simp: EH_Remove_def split: if_splits)
  from rm sl inr obtain a where sa: "buckets t ! i = Some a"
    by (cases "buckets t ! i") (simp_all add: EH_Remove_def)
  with inr have "Some a \<in> set (buckets t)" by (metis nth_mem)
  with hi have a: "a < length (eh_heap t)" by (simp add: heap_inv_def)
  let ?b = "snd (Bucket_Remove k (eh_heap t ! a))"
  from rm sl inr sa have t': "t' = t\<lparr>eh_heap := (eh_heap t)[a := ?b]\<rparr>"
    by (simp add: EH_Remove_def split: prod.splits)
  have "set ((eh_heap t)[a := ?b]) \<subseteq> insert ?b (set (eh_heap t))"
    by (rule set_update_subset_insert)
  moreover from hi a have "local_depth ?b \<le> global_depth t"
    by (simp add: local_depth_Bucket_Remove heap_inv_def)
  ultimately have "\<And>c. c \<in> set (eh_heap t') \<Longrightarrow> local_depth c \<le> global_depth t'"
    unfolding t' using hi by (auto simp: heap_inv_def)
  with hi show ?thesis unfolding t' by (simp add: heap_inv_def)
qed

lemma heap_inv_step:
  assumes "eh_step h r x = Inr t'" and "\<And>t. r = Inr t \<Longrightarrow> heap_inv t"
  shows "heap_inv t'"
proof (cases r)
  case (Inl e)
  with assms(1) show ?thesis by simp
next
  case (Inr t)
  with assms(2) have s: "heap_inv t" by simp
  show ?thesis
  proof (cases x)
    case (EInsert k v)
    with Inr assms(1) have "EH_Insert h k v t = Inr t'" by simp
    with s show ?thesis by (rule heap_inv_Insert)
  next
    case (ERemove k)
    with Inr assms(1) have m: "map_sum id snd (EH_Remove h k t) = Inr t'" by simp
    then obtain b where "EH_Remove h k t = Inr (b, t')"
      by (cases "EH_Remove h k t") (simp, case_tac b, simp)
    with s show ?thesis by (rule heap_inv_Remove)
  qed
qed

lemma heap_inv_run: "eh_run h sz ops = Inr t \<Longrightarrow> heap_inv t"
proof (induction ops arbitrary: t rule: rev_induct)
  case Nil
  then have "t = EH_new sz" by (simp add: eh_run_def)
  then show ?case by (simp add: heap_inv_new)
next
  case (snoc x xs)
  from snoc.prems have "eh_step h (eh_run h sz xs) x = Inr t"
    by (simp add: eh_run_def)
  then show ?case using snoc.IH by (rule heap_inv_step)
qed

text \<open>In a reached state the shift of \<open>Split\<close> by the raised local depth is defined.\<close>

lemma reachable_shifts_defined:
  assumes "eh_run h sz ops = Inr t" and "b \<in> set (eh_heap t)"
  shows "shl1 (local_depth b + 1) = Inr (2 ^ (local_depth b + 1))"
proof -
  from heap_inv_run[OF assms(1)] assms(2) have "local_depth b \<le> global_depth t"
    by (simp add: heap_inv_def)
  moreover from dir_shape_run[OF assms(1)] have "global_depth t < 30" by (simp add: dir_shape_def)
  ultimately show ?thesis by (simp add: shl1_def)
qed

text \<open>
  Against claim C3 as stated. The constructor builds two slots at global depth 0, and the
  key 1 is served by slot 1, which is not the value of its low 0 hash bits.
\<close>

theorem directory_size_counterexample:
  "GetGlobalDepth (EH_new 2 :: (nat, string) ExtendibleHash) = 0 \<and>
   GetNumBuckets (EH_new 2 :: (nat, string) ExtendibleHash) = 2 \<and>
   GetNumBuckets (EH_new 2 :: (nat, string) ExtendibleHash)
     \<noteq> 2 ^ GetGlobalDepth (EH_new 2 :: (nat, string) ExtendibleHash) \<and>
   eh_slot (\<lambda>k. k) (EH_new 2 :: (nat, string) ExtendibleHash) 1 = Inr 1 \<and>
   eh_slot (\<lambda>k. k) (EH_new 2 :: (nat, string) ExtendibleHash) 1
     \<noteq> Inr (1 mod 2 ^ GetGlobalDepth (EH_new 2 :: (nat, string) ExtendibleHash))"
  by (simp add: GetGlobalDepth_def GetNumBuckets_def EH_new_def eh_slot_def GETBIT_mod)

text \<open>
  Claim C3, as the code has it. In every state the table reaches by inserts and removals
  that return, from its constructor, the global depth \<open>G\<close> is below 30 (the insert that
  would raise it to 30 faults in \<open>expand\<close>, whose new size \<open>1 << 31\<close> does not fit \<open>int\<close>),
  the directory has exactly \<open>2^(G+1)\<close> slots, and the slot consulted for a key is the
  value of the low \<open>G+1\<close> bits of its hash, which lies inside the directory.
\<close>

theorem directory_size_and_slot:
  assumes "eh_run h sz ops = Inr t"
  shows "GetGlobalDepth t < 30 \<and>
         GetNumBuckets t = 2 ^ (GetGlobalDepth t + 1) \<and>
         eh_slot h t key = Inr (h key mod 2 ^ (GetGlobalDepth t + 1)) \<and>
         h key mod 2 ^ (GetGlobalDepth t + 1) < GetNumBuckets t"
  using dir_shape_run[OF assms]
  by (simp add: dir_shape_def GetNumBuckets_def GetGlobalDepth_def eh_slot_def GETBIT_mod)

text \<open>
  The theorem after the inserts of 0, 1, 2 and 4 into buckets of capacity 2: the global
  depth is 2, the directory has 8 slots, and the key 13 is served by slot 5.
\<close>

theorem directory_size_and_slot_witness:
  "eh_run (\<lambda>k. k) 2 [EInsert (0::nat) ''a'', EInsert 1 ''b'', EInsert 2 ''c'', EInsert 4 ''d''] =
     Inr \<lparr>eh_bucket_size = 2, global_depth = 2,
        buckets = [Some 0, Some 1, Some 2, Some 1, Some 3, Some 1, Some 2, Some 1],
        eh_heap =
          [\<lparr>bucket_id = 0, local_depth = 2, bucket_size = 2, bucket_data = [(0, ''a'')]\<rparr>,
           \<lparr>bucket_id = 1, local_depth = 0, bucket_size = 2, bucket_data = [(1, ''b'')]\<rparr>,
           \<lparr>bucket_id = 2, local_depth = 1, bucket_size = 2, bucket_data = [(2, ''c'')]\<rparr>,
           \<lparr>bucket_id = 4, local_depth = 2, bucket_size = 2, bucket_data = [(4, ''d'')]\<rparr>]\<rparr> \<and>
   GetNumBuckets \<lparr>eh_bucket_size = 2, global_depth = 2,
        buckets = [Some 0, Some 1, Some 2, Some 1, Some 3, Some 1, Some 2, Some 1],
        eh_heap =
          [\<lparr>bucket_id = 0, local_depth = 2, bucket_size = 2, bucket_data = [(0::nat, ''a'')]\<rparr>,
           \<lparr>bucket_id = 1, local_depth = 0, bucket_size = 2, bucket_data = [(1, ''b'')]\<rparr>,
           \<lparr>bucket_id = 2, local_depth = 1, bucket_size = 2, bucket_data = [(2, ''c'')]\<rparr>,
           \<lparr>bucket_id = 4, local_depth = 2, bucket_size = 2, bucket_data = [(4, ''d'')]\<rparr>]\<rparr> = 8 \<and>
   eh_slot (\<lambda>k. k) \<lparr>eh_bucket_size = 2, global_depth = 2,
        buckets = [Some 0, Some 1, Some 2, Some 1, Some 3, Some 1, Some 2, Some 1],
        eh_heap =
          [\<lparr>bucket_id = 0, local_depth = 2, bucket_size = 2, bucket_data = [(0::nat, ''a'')]\<rparr>,
           \<lparr>bucket_id = 1, local_depth = 0, bucket_size = 2, bucket_data = [(1, ''b'')]\<rparr>,
           \<lparr>bucket_id = 2, local_depth = 1, bucket_size = 2, bucket_data = [(2, ''c'')]\<rparr>,
           \<lparr>bucket_id = 4, local_depth = 2, bucket_size = 2, bucket_data = [(4, ''d'')]\<rparr>]\<rparr> 13 = Inr 5"
proof -
  let ?T = "\<lparr>eh_bucket_size = 2, global_depth = 2,
        buckets = [Some 0, Some 1, Some 2, Some 1, Some 3, Some 1, Some 2, Some 1],
        eh_heap =
          [\<lparr>bucket_id = 0, local_depth = 2, bucket_size = 2, bucket_data = [(0::nat, ''a'')]\<rparr>,
           \<lparr>bucket_id = 1, local_depth = 0, bucket_size = 2, bucket_data = [(1, ''b'')]\<rparr>,
           \<lparr>bucket_id = 2, local_depth = 1, bucket_size = 2, bucket_data = [(2, ''c'')]\<rparr>,
           \<lparr>bucket_id = 4, local_depth = 2, bucket_size = 2, bucket_data = [(4, ''d'')]\<rparr>]\<rparr>"
  have run: "eh_run (\<lambda>k. k) 2 [EInsert (0::nat) ''a'', EInsert 1 ''b'', EInsert 2 ''c'', EInsert 4 ''d''] = Inr ?T"
    by code_simp
  have g: "GetGlobalDepth ?T = 2" by (simp add: GetGlobalDepth_def)
  from directory_size_and_slot[OF run, of 13] g
  have "GetNumBuckets ?T = 8" and "eh_slot (\<lambda>k. k) ?T 13 = Inr 5" by simp_all
  with run show ?thesis by simp
qed

text \<open>
  Claim C4 at its failing inputs. With buckets of capacity 2 and the identity hash, after
  the inserts of 1, 3, 5, 0, 2 and 6 the key 6 is not found: it sits in a bucket that no
  slot with low bits 110 points to. After \<open>Insert(0, a)\<close> and \<open>Insert(0, b)\<close> the key 0 is
  found with the first value. The run of the concrete scenario of the claim does find
  0, 2 and 4.
\<close>

theorem eh_insert_loses_key:
  "eh_find_in (\<lambda>k. k) 6
     (eh_run (\<lambda>k. k) 2 [EInsert (1::nat) ''a'', EInsert 3 ''b'', EInsert 5 ''c'',
        EInsert 0 ''d'', EInsert 2 ''e'', EInsert 6 ''f'']) = Inr None \<and>
   eh_find_in (\<lambda>k. k) 0 (eh_run (\<lambda>k. k) 2 [EInsert (0::nat) ''a'', EInsert 0 ''b''])
     = Inr (Some ''a'') \<and>
   map (\<lambda>k. eh_find_in (\<lambda>k. k) k
          (eh_run (\<lambda>k. k) 2 [EInsert (0::nat) ''a'', EInsert 1 ''b'', EInsert 2 ''c'', EInsert 4 ''d'']))
       [0, 2, 4]
     = [Inr (Some ''a''), Inr (Some ''c''), Inr (Some ''d'')]"
  by code_simp

section \<open>B+Tree pages: proofs\<close>

subsection \<open>ValueIndex\<close>

lemma vi_loop_found:
  assumes "0 \<le> start" and "end < int (length arr)"
    and "\<forall>i j. start \<le> i \<and> i \<le> j \<and> j \<le> end \<longrightarrow> snd (arr ! nat i) \<le> snd (arr ! nat j)"
    and "\<exists>i. start \<le> i \<and> i \<le> end \<and> snd (arr ! nat i) = v"
  shows "\<exists>i. vi_loop arr v start end = Inr i \<and> start \<le> i \<and> i \<le> end \<and> snd (arr ! nat i) = v"
  using assms
proof (induction arr v start "end" rule: vi_loop.induct)
  case (1 arr v start ende)
  let ?mid = "start + (ende - start) div 2"
  from "1.prems"(4) obtain w where w: "start \<le> w" "w \<le> ende" "snd (arr ! nat w) = v" by blast
  then have se: "start \<le> ende" by simp
  have mid: "start \<le> ?mid" "?mid \<le> ende" using se by auto
  have rdm: "rd arr ?mid = Inr (arr ! nat ?mid)"
    using mid "1.prems"(1,2) by (simp add: rd_def)
  let ?m = "arr ! nat ?mid"
  show ?case
  proof (cases "v < snd ?m")
    case True
    have wlt: "w < ?mid"
    proof (rule ccontr)
      assume "\<not> w < ?mid"
      then have "?mid \<le> w" by simp
      with "1.prems"(3) mid w have "snd ?m \<le> snd (arr ! nat w)" by blast
      with True w show False by simp
    qed
    have ih: "\<exists>i. vi_loop arr v start (?mid - 1) = Inr i \<and> start \<le> i \<and> i \<le> ?mid - 1 \<and> snd (arr ! nat i) = v"
    proof (rule "1.IH"(1)[OF se refl rdm True])
      show "0 \<le> start" by fact
      show "?mid - 1 < int (length arr)" using mid "1.prems"(2) by simp
      show "\<forall>i j. start \<le> i \<and> i \<le> j \<and> j \<le> ?mid - 1 \<longrightarrow> snd (arr ! nat i) \<le> snd (arr ! nat j)"
        using "1.prems"(3) mid by auto
      show "\<exists>i. start \<le> i \<and> i \<le> ?mid - 1 \<and> snd (arr ! nat i) = v"
        using w wlt by (intro exI[of _ w]) simp
    qed
    then obtain i where i: "vi_loop arr v start (?mid - 1) = Inr i" "start \<le> i" "i \<le> ?mid - 1" "snd (arr ! nat i) = v"
      by blast
    have "vi_loop arr v start ende = vi_loop arr v start (?mid - 1)"
      using se rdm True by (subst vi_loop.simps) (simp add: Let_def)
    with i mid show ?thesis by (intro exI[of _ i]) simp
  next
    case False
    show ?thesis
    proof (cases "snd ?m < v")
      case lt: True
      have wgt: "?mid < w"
      proof (rule ccontr)
        assume "\<not> ?mid < w"
        then have "w \<le> ?mid" by simp
        with "1.prems"(3) mid w have "snd (arr ! nat w) \<le> snd ?m" by blast
        with lt w show False by simp
      qed
      have ih: "\<exists>i. vi_loop arr v (?mid + 1) ende = Inr i \<and> ?mid + 1 \<le> i \<and> i \<le> ende \<and> snd (arr ! nat i) = v"
      proof (rule "1.IH"(2)[OF se refl rdm False lt])
        show "0 \<le> ?mid + 1" using mid "1.prems"(1) by simp
        show "ende < int (length arr)" by fact
        show "\<forall>i j. ?mid + 1 \<le> i \<and> i \<le> j \<and> j \<le> ende \<longrightarrow> snd (arr ! nat i) \<le> snd (arr ! nat j)"
          using "1.prems"(3) mid by auto
        show "\<exists>i. ?mid + 1 \<le> i \<and> i \<le> ende \<and> snd (arr ! nat i) = v"
          using w wgt by (intro exI[of _ w]) simp
      qed
      then obtain i where i: "vi_loop arr v (?mid + 1) ende = Inr i" "?mid + 1 \<le> i" "i \<le> ende" "snd (arr ! nat i) = v"
        by blast
      have "vi_loop arr v start ende = vi_loop arr v (?mid + 1) ende"
        using se rdm False lt by (subst vi_loop.simps) (simp add: Let_def)
      with i mid show ?thesis by (intro exI[of _ i]) simp
    next
      case nlt: False
      have "vi_loop arr v start ende = Inr ?mid"
        using se rdm False nlt by (subst vi_loop.simps) (simp add: Let_def)
      moreover have "snd ?m = v" using False nlt by simp
      ultimately show ?thesis using mid by (intro exI[of _ ?mid]) simp
    qed
  qed
qed

lemma ValueIndex_sorted:
  assumes so: "sorted (map snd (ip_entries p))"
    and len: "ip_size p \<le> int (length (ip_array p))"
    and pres: "v \<in> snd ` set (ip_entries p)"
  shows "\<exists>i. ValueIndex p v = Inr i \<and> 0 \<le> i \<and> i < ip_size p \<and> snd (ip_array p ! nat i) = v"
proof -
  let ?n = "nat (ip_size p)"
  let ?arr = "ip_array p"
  have ln: "length (ip_entries p) = ?n" using len by (simp add: ip_entries_def)
  have nth: "\<And>i. i < ?n \<Longrightarrow> ip_entries p ! i = ?arr ! i" by (simp add: ip_entries_def)
  from pres obtain k where "k < ?n" "snd (ip_entries p ! k) = v"
    by (metis (no_types, lifting) imageE in_set_conv_nth ln)
  then have k: "k < ?n" "snd (?arr ! k) = v" using nth by auto
  then have pos: "0 < ip_size p" by simp
  have mono: "\<forall>i j. 0 \<le> i \<and> i \<le> j \<and> j \<le> ip_size p - 1 \<longrightarrow> snd (?arr ! nat i) \<le> snd (?arr ! nat j)"
  proof (intro allI impI)
    fix i j :: int assume a: "0 \<le> i \<and> i \<le> j \<and> j \<le> ip_size p - 1"
    then have "nat i \<le> nat j" "nat j < length (map snd (ip_entries p))" using ln by auto
    from sorted_nth_mono[OF so this] a ln show "snd (?arr ! nat i) \<le> snd (?arr ! nat j)"
      using nth[of "nat i"] nth[of "nat j"] by simp
  qed
  have ex: "\<exists>i. 0 \<le> i \<and> i \<le> ip_size p - 1 \<and> snd (?arr ! nat i) = v"
    using k by (intro exI[of _ "int k"]) auto
  have "\<exists>i. vi_loop ?arr v 0 (ip_size p - 1) = Inr i \<and> 0 \<le> i \<and> i \<le> ip_size p - 1 \<and> snd (?arr ! nat i) = v"
    by (rule vi_loop_found[OF _ _ mono ex]) (use len in auto)
  then show ?thesis by (auto simp: ValueIndex_def)
qed

text \<open>
  Claim C10. \<open>ValueIndex\<close> searches the child page ids of the slots in use by bisection.
  When these ids ascend, it returns the index of a slot that holds the child asked for,
  for every child that is present. When they do not ascend, it can return \<open>-1\<close> for a
  present child: in the page with the children 7, 5, 2 the child 2 is not found. The
  callers take the result as it comes. On that page \<open>InsertNodeAfter\<close> for the child 2
  moves the slots from slot 0 on, as for the index \<open>-1\<close>, while on the page with the
  children 2, 5, 7 it moves the slots behind the slot of child 2. \<open>MoveFirstToEndOf\<close> of
  the page 2 under the unsorted parent stops at the assertion of \<open>KeyAt\<close> (internal page)
  or of \<open>SetKeyAt\<close> (leaf); under a sorted parent the move of an internal page goes
  through.
\<close>

theorem ValueIndex_needs_ascending_children:
  "(sorted (map snd (ip_entries p)) \<and> ip_size p \<le> int (length (ip_array p)) \<and>
      v \<in> snd ` set (ip_entries p)
    \<longrightarrow> (\<exists>i. ValueIndex p v = Inr i \<and> 0 \<le> i \<and> i < ip_size p \<and> snd (ip_array p ! nat i) = v)) \<and>
   ValueIndex \<lparr>ip_page_id = 1, ip_parent_page_id = - 1, ip_size = 3, ip_max_size = 4,
               ip_array = [(0::int, 7), (10, 5), (20, 2), (0, 0)]\<rparr> 2 = Inr (- 1) \<and>
   (20, 2) \<in> set (ip_entries \<lparr>ip_page_id = 1, ip_parent_page_id = - 1, ip_size = 3, ip_max_size = 4,
               ip_array = [(0::int, 7), (10, 5), (20, 2), (0, 0)]\<rparr>) \<and>
   InsertNodeAfter 2 30 9 \<lparr>ip_page_id = 1, ip_parent_page_id = - 1, ip_size = 3, ip_max_size = 4,
               ip_array = [(0::int, 7), (10, 5), (20, 2), (0, 0)]\<rparr>
     = Inr (4, \<lparr>ip_page_id = 1, ip_parent_page_id = - 1, ip_size = 4, ip_max_size = 4,
               ip_array = [(0, 7), (0, 7), (10, 5), (20, 2)]\<rparr>) \<and>
   InsertNodeAfter 2 30 9 \<lparr>ip_page_id = 1, ip_parent_page_id = - 1, ip_size = 3, ip_max_size = 4,
               ip_array = [(0::int, 2), (10, 5), (20, 7), (0, 0)]\<rparr>
     = Inr (4, \<lparr>ip_page_id = 1, ip_parent_page_id = - 1, ip_size = 4, ip_max_size = 4,
               ip_array = [(0, 2), (10, 5), (10, 5), (20, 7)]\<rparr>) \<and>
   IP_MoveFirstToEndOf 2 5
     \<lparr>bp_pages = [(0, HeaderNode []),
        (1, InternalNode \<lparr>ip_page_id = 1, ip_parent_page_id = - 1, ip_size = 3, ip_max_size = 4,
              ip_array = [(0::int, 7), (10, 5), (20, 2), (0, 0)]\<rparr>),
        (2, InternalNode \<lparr>ip_page_id = 2, ip_parent_page_id = 1, ip_size = 2, ip_max_size = 4,
              ip_array = [(0, 14), (24, 15), (0, 0), (0, 0)]\<rparr>),
        (5, InternalNode \<lparr>ip_page_id = 5, ip_parent_page_id = 1, ip_size = 3, ip_max_size = 4,
              ip_array = [(0, 11), (12, 12), (16, 13), (0, 0)]\<rparr>),
        (11, LeafNode \<lparr>lp_page_id = 11, lp_parent_page_id = 5, lp_size = 1, lp_max_size = 4,
              lp_next_page_id = 12, lp_array = [(10, 1::int), (0, 0), (0, 0), (0, 0)]\<rparr>)],
      bp_pin_count = [], bp_next_page_id = 20, bp_raw = [], bp_fetched = 0, bp_unpinned = 0\<rparr>
     = Inl AssertFailed \<and>
   Leaf_MoveFirstToEndOf 2 5
     \<lparr>bp_pages = [(0, HeaderNode []),
        (1, InternalNode \<lparr>ip_page_id = 1, ip_parent_page_id = - 1, ip_size = 3, ip_max_size = 4,
              ip_array = [(0::int, 7), (10, 5), (20, 2), (0, 0)]\<rparr>),
        (2, LeafNode \<lparr>lp_page_id = 2, lp_parent_page_id = 1, lp_size = 2, lp_max_size = 4,
              lp_next_page_id = - 1, lp_array = [(20, 1::int), (24, 2), (0, 0), (0, 0)]\<rparr>),
        (5, LeafNode \<lparr>lp_page_id = 5, lp_parent_page_id = 1, lp_size = 1, lp_max_size = 4,
              lp_next_page_id = 2, lp_array = [(10, 3), (0, 0), (0, 0), (0, 0)]\<rparr>)],
      bp_pin_count = [], bp_next_page_id = 20, bp_raw = [], bp_fetched = 0, bp_unpinned = 0\<rparr>
     = Inl AssertFailed \<and>
   \<not> isl (IP_MoveFirstToEndOf 5 2
     \<lparr>bp_pages = [(0, HeaderNode []),
        (1, InternalNode \<lparr>ip_page_id = 1, ip_parent_page_id = - 1, ip_size = 3, ip_max_size = 4,
              ip_array = [(0::int, 2), (10, 5), (20, 7), (0, 0)]\<rparr>),
        (2, InternalNode \<lparr>ip_page_id = 2, ip_parent_page_id = 1, ip_size = 2, ip_max_size = 4,
              ip_array = [(0, 14), (4, 15), (0, 0), (0, 0)]\<rparr>),
        (5, InternalNode \<lparr>ip_page_id = 5, ip_parent_page_id = 1, ip_size = 3, ip_max_size = 4,
              ip_array = [(0, 11), (12, 12), (16, 13), (0, 0)]\<rparr>),
        (11, LeafNode \<lparr>lp_page_id = 11, lp_parent_page_id = 5, lp_size = 1, lp_max_size = 4,
              lp_next_page_id = 12, lp_array = [(10, 1::int), (0, 0), (0, 0), (0, 0)]\<rparr>)],
      bp_pin_count = [], bp_next_page_id = 20, bp_raw = [], bp_fetched = 0, bp_unpinned = 0\<rparr>)"
proof -
  have general: "sorted (map snd (ip_entries p)) \<and> ip_size p \<le> int (length (ip_array p)) \<and>
      v \<in> snd ` set (ip_entries p)
    \<longrightarrow> (\<exists>i. ValueIndex p v = Inr i \<and> 0 \<le> i \<and> i < ip_size p \<and> snd (ip_array p ! nat i) = v)"
    using ValueIndex_sorted by blast
  have u1: "ValueIndex \<lparr>ip_page_id = 1, ip_parent_page_id = - 1, ip_size = 3, ip_max_size = 4,
               ip_array = [(0::int, 7), (10, 5), (20, 2), (0, 0)]\<rparr> 2 = Inr (- 1)"
    by code_simp
  have u2: "(20, 2) \<in> set (ip_entries \<lparr>ip_page_id = 1, ip_parent_page_id = - 1, ip_size = 3, ip_max_size = 4,
               ip_array = [(0::int, 7), (10, 5), (20, 2), (0, 0)]\<rparr>)"
    by code_simp
  have u3: "InsertNodeAfter 2 30 9 \<lparr>ip_page_id = 1, ip_parent_page_id = - 1, ip_size = 3, ip_max_size = 4,
               ip_array = [(0::int, 7), (10, 5), (20, 2), (0, 0)]\<rparr>
     = Inr (4, \<lparr>ip_page_id = 1, ip_parent_page_id = - 1, ip_size = 4, ip_max_size = 4,
               ip_array = [(0, 7), (0, 7), (10, 5), (20, 2)]\<rparr>)"
    by code_simp
  have s3: "InsertNodeAfter 2 30 9 \<lparr>ip_page_id = 1, ip_parent_page_id = - 1, ip_size = 3, ip_max_size = 4,
               ip_array = [(0::int, 2), (10, 5), (20, 7), (0, 0)]\<rparr>
     = Inr (4, \<lparr>ip_page_id = 1, ip_parent_page_id = - 1, ip_size = 4, ip_max_size = 4,
               ip_array = [(0, 2), (10, 5), (10, 5), (20, 7)]\<rparr>)"
    by code_simp
  have u4: "IP_MoveFirstToEndOf 2 5
     \<lparr>bp_pages = [(0, HeaderNode []),
        (1, InternalNode \<lparr>ip_page_id = 1, ip_parent_page_id = - 1, ip_size = 3, ip_max_size = 4,
              ip_array = [(0::int, 7), (10, 5), (20, 2), (0, 0)]\<rparr>),
        (2, InternalNode \<lparr>ip_page_id = 2, ip_parent_page_id = 1, ip_size = 2, ip_max_size = 4,
              ip_array = [(0, 14), (24, 15), (0, 0), (0, 0)]\<rparr>),
        (5, InternalNode \<lparr>ip_page_id = 5, ip_parent_page_id = 1, ip_size = 3, ip_max_size = 4,
              ip_array = [(0, 11), (12, 12), (16, 13), (0, 0)]\<rparr>),
        (11, LeafNode \<lparr>lp_page_id = 11, lp_parent_page_id = 5, lp_size = 1, lp_max_size = 4,
              lp_next_page_id = 12, lp_array = [(10, 1::int), (0, 0), (0, 0), (0, 0)]\<rparr>)],
      bp_pin_count = [], bp_next_page_id = 20, bp_raw = [], bp_fetched = 0, bp_unpinned = 0\<rparr>
     = Inl AssertFailed"
    by code_simp
  have u5: "Leaf_MoveFirstToEndOf 2 5
     \<lparr>bp_pages = [(0, HeaderNode []),
        (1, InternalNode \<lparr>ip_page_id = 1, ip_parent_page_id = - 1, ip_size = 3, ip_max_size = 4,
              ip_array = [(0::int, 7), (10, 5), (20, 2), (0, 0)]\<rparr>),
        (2, LeafNode \<lparr>lp_page_id = 2, lp_parent_page_id = 1, lp_size = 2, lp_max_size = 4,
              lp_next_page_id = - 1, lp_array = [(20, 1::int), (24, 2), (0, 0), (0, 0)]\<rparr>),
        (5, LeafNode \<lparr>lp_page_id = 5, lp_parent_page_id = 1, lp_size = 1, lp_max_size = 4,
              lp_next_page_id = 2, lp_array = [(10, 3), (0, 0), (0, 0), (0, 0)]\<rparr>)],
      bp_pin_count = [], bp_next_page_id = 20, bp_raw = [], bp_fetched = 0, bp_unpinned = 0\<rparr>
     = Inl AssertFailed"
    by code_simp
  have s4: "\<not> isl (IP_MoveFirstToEndOf 5 2
     \<lparr>bp_pages = [(0, HeaderNode []),
        (1, InternalNode \<lparr>ip_page_id = 1, ip_parent_page_id = - 1, ip_size = 3, ip_max_size = 4,
              ip_array = [(0::int, 2), (10, 5), (20, 7), (0, 0)]\<rparr>),
        (2, InternalNode \<lparr>ip_page_id = 2, ip_parent_page_id = 1, ip_size = 2, ip_max_size = 4,
              ip_array = [(0, 14), (4, 15), (0, 0), (0, 0)]\<rparr>),
        (5, InternalNode \<lparr>ip_page_id = 5, ip_parent_page_id = 1, ip_size = 3, ip_max_size = 4,
              ip_array = [(0, 11), (12, 12), (16, 13), (0, 0)]\<rparr>),
        (11, LeafNode \<lparr>lp_page_id = 11, lp_parent_page_id = 5, lp_size = 1, lp_max_size = 4,
              lp_next_page_id = 12, lp_array = [(10, 1::int), (0, 0), (0, 0), (0, 0)]\<rparr>)],
      bp_pin_count = [], bp_next_page_id = 20, bp_raw = [], bp_fetched = 0, bp_unpinned = 0\<rparr>)"
    by code_simp
  from general u1 u2 u3 s3 u4 u5 s4 show ?thesis by (intro conjI)
qed

text \<open>
  The theorem at the page with the children 2, 5, 7 and the child 5: the ids ascend, the
  child is present, and \<open>ValueIndex\<close> returns its slot 1.
\<close>

theorem ValueIndex_needs_ascending_children_witness:
  "sorted (map snd (ip_entries \<lparr>ip_page_id = 1, ip_parent_page_id = - 1, ip_size = 3, ip_max_size = 4,
               ip_array = [(0::int, 2), (10, 5), (20, 7), (0, 0)]\<rparr>)) \<and>
   ip_size \<lparr>ip_page_id = 1, ip_parent_page_id = - 1, ip_size = 3, ip_max_size = 4,
               ip_array = [(0::int, 2), (10, 5), (20, 7), (0, 0)]\<rparr>
     \<le> int (length (ip_array \<lparr>ip_page_id = 1, ip_parent_page_id = - 1, ip_size = 3, ip_max_size = 4,
               ip_array = [(0::int, 2), (10, 5), (20, 7), (0, 0)]\<rparr>)) \<and>
   5 \<in> snd ` set (ip_entries \<lparr>ip_page_id = 1, ip_parent_page_id = - 1, ip_size = 3, ip_max_size = 4,
               ip_array = [(0::int, 2), (10, 5), (20, 7), (0, 0)]\<rparr>) \<and>
   ValueIndex \<lparr>ip_page_id = 1, ip_parent_page_id = - 1, ip_size = 3, ip_max_size = 4,
               ip_array = [(0::int, 2), (10, 5), (20, 7), (0, 0)]\<rparr> 5 = Inr 1"
proof -
  let ?P = "\<lparr>ip_page_id = 1, ip_parent_page_id = - 1, ip_size = 3, ip_max_size = 4,
               ip_array = [(0::int, 2), (10, 5), (20, 7), (0, 0)]\<rparr>"
  have a: "sorted (map snd (ip_entries ?P))" by (simp add: ip_entries_def)
  have b: "ip_size ?P \<le> int (length (ip_array ?P))" by simp
  have c: "5 \<in> snd ` set (ip_entries ?P)" by (simp add: ip_entries_def)
  from ValueIndex_needs_ascending_children[of ?P 5, THEN conjunct1] a b c
  obtain i where i: "ValueIndex ?P 5 = Inr i" "0 \<le> i" "i < 3" "snd (ip_array ?P ! nat i) = 5"
    by auto
  then have "i = 0 \<or> i = 1 \<or> i = 2" by auto
  with i(4) have "i = 1" by auto
  with i(1) a b c show ?thesis by simp
qed

subsection \<open>Internal page lookup\<close>

text \<open>
  On a page whose keys of the slots \<open>1 .. size-1\<close> are strictly increasing, \<open>BinarySearch\<close>
  returns the first slot whose key is not below the search key, and \<open>Lookup\<close> returns the
  child of the slot \<open>c\<close>, where the keys of the slots \<open>1 .. c\<close> are exactly the keys below
  the search key. For a stored key \<open>K\<^sub>i\<close> that is the slot \<open>i - 1\<close>.
\<close>

lemma bs_loop_lower_bound:
  assumes "0 \<le> start" and "start \<le> end" and "end < int (length arr)"
    and "\<forall>i j. start \<le> i \<and> i < j \<and> j \<le> end \<longrightarrow> fst (arr ! nat i) < fst (arr ! nat j)"
    and "key \<le> fst (arr ! nat end)"
  shows "\<exists>s. bs_loop arr key start end = Inr s \<and> start \<le> s \<and> s \<le> end \<and>
             key \<le> fst (arr ! nat s) \<and> (\<forall>i. start \<le> i \<and> i < s \<longrightarrow> fst (arr ! nat i) < key)"
  using assms
proof (induction arr key start "end" rule: bs_loop.induct)
  case (1 arr key start ende)
  let ?mid = "start + (ende - start) div 2"
  show ?case
  proof (cases "start < ende")
    case False
    with "1.prems"(2) have eq: "ende = start" by simp
    have "bs_loop arr key start ende = Inr start"
      using False by (subst bs_loop.simps) simp
    with eq "1.prems"(5) show ?thesis by (intro exI[of _ start]) auto
  next
    case True
    then have mid: "start \<le> ?mid" "?mid < ende" by auto
    have rdm: "rd arr ?mid = Inr (arr ! nat ?mid)"
      using mid "1.prems"(1,3) by (simp add: rd_def)
    let ?m = "arr ! nat ?mid"
    have below: "\<And>i. start \<le> i \<Longrightarrow> i < ?mid \<Longrightarrow> fst (arr ! nat i) < fst ?m"
      using "1.prems"(4) mid by auto
    show ?thesis
    proof (cases "fst ?m < key")
      case lt: True
      have "\<exists>s. bs_loop arr key (?mid + 1) ende = Inr s \<and> ?mid + 1 \<le> s \<and> s \<le> ende \<and>
             key \<le> fst (arr ! nat s) \<and> (\<forall>i. ?mid + 1 \<le> i \<and> i < s \<longrightarrow> fst (arr ! nat i) < key)"
      proof (rule "1.IH"(1)[OF True refl rdm lt])
        show "0 \<le> ?mid + 1" using mid "1.prems"(1) by simp
        show "?mid + 1 \<le> ende" using mid by simp
        show "ende < int (length arr)" by fact
        show "\<forall>i j. ?mid + 1 \<le> i \<and> i < j \<and> j \<le> ende \<longrightarrow> fst (arr ! nat i) < fst (arr ! nat j)"
          using "1.prems"(4) mid by auto
        show "key \<le> fst (arr ! nat ende)" by fact
      qed
      then obtain s where s: "bs_loop arr key (?mid + 1) ende = Inr s" "?mid + 1 \<le> s" "s \<le> ende"
        "key \<le> fst (arr ! nat s)" "\<forall>i. ?mid + 1 \<le> i \<and> i < s \<longrightarrow> fst (arr ! nat i) < key"
        by blast
      have eq: "bs_loop arr key start ende = bs_loop arr key (?mid + 1) ende"
        using True rdm lt by (subst bs_loop.simps) (simp add: Let_def)
      have "\<forall>i. start \<le> i \<and> i < s \<longrightarrow> fst (arr ! nat i) < key"
      proof (intro allI impI)
        fix i assume i: "start \<le> i \<and> i < s"
        consider "i < ?mid" | "i = ?mid" | "?mid + 1 \<le> i" by linarith
        then show "fst (arr ! nat i) < key"
        proof cases
          case 1
          with below[of i] i lt show ?thesis by auto
        next
          case 2
          with lt show ?thesis by simp
        next
          case 3
          with s(5) i show ?thesis by blast
        qed
      qed
      with s eq mid show ?thesis by (intro exI[of _ s]) simp
    next
      case nlt: False
      show ?thesis
      proof (cases "key < fst ?m")
        case gt: True
        have "\<exists>s. bs_loop arr key start ?mid = Inr s \<and> start \<le> s \<and> s \<le> ?mid \<and>
             key \<le> fst (arr ! nat s) \<and> (\<forall>i. start \<le> i \<and> i < s \<longrightarrow> fst (arr ! nat i) < key)"
        proof (rule "1.IH"(2)[OF True refl rdm nlt gt])
          show "0 \<le> start" by fact
          show "start \<le> ?mid" using mid by simp
          show "?mid < int (length arr)" using mid "1.prems"(3) by simp
          show "\<forall>i j. start \<le> i \<and> i < j \<and> j \<le> ?mid \<longrightarrow> fst (arr ! nat i) < fst (arr ! nat j)"
            using "1.prems"(4) mid by auto
          show "key \<le> fst (arr ! nat ?mid)" using gt by simp
        qed
        then obtain s where s: "bs_loop arr key start ?mid = Inr s" "start \<le> s" "s \<le> ?mid"
          "key \<le> fst (arr ! nat s)" "\<forall>i. start \<le> i \<and> i < s \<longrightarrow> fst (arr ! nat i) < key"
          by blast
        have eq: "bs_loop arr key start ende = bs_loop arr key start ?mid"
          using True rdm nlt gt by (subst bs_loop.simps) (simp add: Let_def)
        with s mid show ?thesis by (intro exI[of _ s]) simp
      next
        case ngt: False
        have eq: "bs_loop arr key start ende = Inr ?mid"
          using True rdm nlt ngt by (subst bs_loop.simps) (simp add: Let_def)
        have keq: "fst ?m = key" using nlt ngt by simp
        have "\<forall>i. start \<le> i \<and> i < ?mid \<longrightarrow> fst (arr ! nat i) < key"
          using below keq by auto
        with eq keq mid show ?thesis by (intro exI[of _ ?mid]) simp
      qed
    qed
  qed
qed

lemma to_int_small: "0 \<le> s \<Longrightarrow> s < 2147483648 \<Longrightarrow> to_int s = s"
  by (simp add: to_int_def Let_def)

lemma IP_Lookup_slot:
  assumes sz: "2 \<le> ip_size p" "ip_size p \<le> int (length (ip_array p))" "ip_size p < 2147483648"
    and mono: "\<forall>i j. 1 \<le> i \<and> i < j \<and> j \<le> ip_size p - 1 \<longrightarrow>
                 fst (ip_array p ! nat i) < fst (ip_array p ! nat j)"
  shows "\<exists>c. IP_Lookup key p = Inr (snd (ip_array p ! nat c)) \<and> 0 \<le> c \<and> c \<le> ip_size p - 1 \<and>
             (\<forall>i. 1 \<le> i \<and> i \<le> c \<longrightarrow> fst (ip_array p ! nat i) < key) \<and>
             (\<forall>i. c < i \<and> i \<le> ip_size p - 1 \<longrightarrow> key \<le> fst (ip_array p ! nat i))"
proof -
  let ?arr = "ip_array p"
  let ?n = "ip_size p - 1"
  have rd1: "rd ?arr 1 = Inr (?arr ! 1)" using sz by (simp add: rd_def)
  have rd0: "rd ?arr 0 = Inr (?arr ! 0)" using sz by (auto simp add: rd_def)
  have rdn: "rd ?arr ?n = Inr (?arr ! nat ?n)" using sz by (simp add: rd_def)
  have le_mono: "\<And>i j. 1 \<le> i \<Longrightarrow> i \<le> j \<Longrightarrow> j \<le> ?n \<Longrightarrow> fst (?arr ! nat i) \<le> fst (?arr ! nat j)"
  proof -
    fix i j :: int assume a: "1 \<le> i" "i \<le> j" "j \<le> ?n"
    show "fst (?arr ! nat i) \<le> fst (?arr ! nat j)"
    proof (cases "i = j")
      case True then show ?thesis by simp
    next
      case False
      with a mono have "fst (?arr ! nat i) < fst (?arr ! nat j)" by auto
      then show ?thesis by simp
    qed
  qed
  show ?thesis
  proof (cases "key < fst (?arr ! 1)")
    case True
    have l: "IP_Lookup key p = Inr (snd (?arr ! 0))"
      using True rd1 rd0 by (simp add: IP_Lookup_def Let_def bindf_def)
    have "\<forall>i. 0 < i \<and> i \<le> ?n \<longrightarrow> key \<le> fst (?arr ! nat i)"
    proof (intro allI impI)
      fix i assume "0 < i \<and> i \<le> ?n"
      then have "fst (?arr ! nat 1) \<le> fst (?arr ! nat i)" by (intro le_mono) auto
      with True show "key \<le> fst (?arr ! nat i)" by simp
    qed
    with l sz show ?thesis by (intro exI[of _ 0]) auto
  next
    case nlow: False
    show ?thesis
    proof (cases "fst (?arr ! nat ?n) < key")
      case True
      have l: "IP_Lookup key p = Inr (snd (?arr ! nat ?n))"
        using nlow True rd1 rdn by (simp add: IP_Lookup_def Let_def bindf_def)
      have "\<forall>i. 1 \<le> i \<and> i \<le> ?n \<longrightarrow> fst (?arr ! nat i) < key"
      proof (intro allI impI)
        fix i assume "1 \<le> i \<and> i \<le> ?n"
        then have "fst (?arr ! nat i) \<le> fst (?arr ! nat ?n)" by (intro le_mono) auto
        with True show "fst (?arr ! nat i) < key" by simp
      qed
      with l sz show ?thesis by (intro exI[of _ ?n]) auto
    next
      case nhigh: False
      have "\<exists>s. bs_loop ?arr key 1 ?n = Inr s \<and> 1 \<le> s \<and> s \<le> ?n \<and>
             key \<le> fst (?arr ! nat s) \<and> (\<forall>i. 1 \<le> i \<and> i < s \<longrightarrow> fst (?arr ! nat i) < key)"
      proof (rule bs_loop_lower_bound)
        show "(0::int) \<le> 1" by simp
        show "1 \<le> ?n" using sz by simp
        show "?n < int (length ?arr)" using sz by simp
        show "\<forall>i j. 1 \<le> i \<and> i < j \<and> j \<le> ?n \<longrightarrow> fst (?arr ! nat i) < fst (?arr ! nat j)" by fact
        show "key \<le> fst (?arr ! nat ?n)" using nhigh by simp
      qed
      then obtain s where s: "bs_loop ?arr key 1 ?n = Inr s" "1 \<le> s" "s \<le> ?n"
        "key \<le> fst (?arr ! nat s)" "\<forall>i. 1 \<le> i \<and> i < s \<longrightarrow> fst (?arr ! nat i) < key"
        by blast
      have md: "?n mod 18446744073709551616 = ?n" using sz by simp
      have bs: "BinarySearch ?arr (ip_size p) key = Inr s"
        using s(1,2,3) sz md to_int_small[of s] by (simp add: BinarySearch_def)
      have rds: "rd ?arr (s - 1) = Inr (?arr ! nat (s - 1))"
        using s sz by (simp add: rd_def)
      have l: "IP_Lookup key p = Inr (snd (?arr ! nat (s - 1)))"
        using nlow nhigh rd1 rdn bs s(2,3) rds by (simp add: IP_Lookup_def Let_def bindf_def)
      have up: "\<forall>i. s - 1 < i \<and> i \<le> ?n \<longrightarrow> key \<le> fst (?arr ! nat i)"
      proof (intro allI impI)
        fix i assume i: "s - 1 < i \<and> i \<le> ?n"
        then have "fst (?arr ! nat s) \<le> fst (?arr ! nat i)" using s(2) by (intro le_mono) auto
        with s(4) show "key \<le> fst (?arr ! nat i)" by simp
      qed
      have "\<forall>i. 1 \<le> i \<and> i \<le> s - 1 \<longrightarrow> fst (?arr ! nat i) < key" using s(5) by auto
      with l up s(2,3) show ?thesis by (intro exI[of _ "s - 1"]) auto
    qed
  qed
qed

lemma IP_Lookup_stored_key:
  assumes sz: "2 \<le> ip_size p" "ip_size p \<le> int (length (ip_array p))" "ip_size p < 2147483648"
    and mono: "\<forall>i j. 1 \<le> i \<and> i < j \<and> j \<le> ip_size p - 1 \<longrightarrow>
                 fst (ip_array p ! nat i) < fst (ip_array p ! nat j)"
    and i: "1 \<le> i" "i \<le> ip_size p - 1"
  shows "IP_Lookup (fst (ip_array p ! nat i)) p = Inr (snd (ip_array p ! nat (i - 1)))"
proof -
  let ?arr = "ip_array p"
  let ?key = "fst (?arr ! nat i)"
  from IP_Lookup_slot[OF sz mono, of ?key] obtain c where
    c: "IP_Lookup ?key p = Inr (snd (?arr ! nat c))" "0 \<le> c" "c \<le> ip_size p - 1"
       "\<forall>j. 1 \<le> j \<and> j \<le> c \<longrightarrow> fst (?arr ! nat j) < ?key"
       "\<forall>j. c < j \<and> j \<le> ip_size p - 1 \<longrightarrow> ?key \<le> fst (?arr ! nat j)"
    by blast
  have "c < i"
  proof (rule ccontr)
    assume "\<not> c < i"
    with i c(4) have "?key < ?key" by auto
    then show False by simp
  qed
  moreover have "i - 1 \<le> c"
  proof (rule ccontr)
    assume "\<not> i - 1 \<le> c"
    then have "c < i - 1" "i - 1 \<le> ip_size p - 1" using i by auto
    with c(5) have "?key \<le> fst (?arr ! nat (i - 1))" by blast
    moreover have "fst (?arr ! nat (i - 1)) < ?key"
      using mono i \<open>c < i - 1\<close> c(2) by auto
    ultimately show False by simp
  qed
  ultimately have "c = i - 1" by simp
  with c(1) show ?thesis by simp
qed

text \<open>
  Claim C5 at its failing input. In the internal page with the keys 10, 20 (slot 0's key
  unused) and the children 100, 101, 102, the rightmost key not above 10 is the key of
  slot 1 and the rightmost key not above 20 is the key of slot 2, so the claim asks for
  the children 101 and 102. \<open>Lookup\<close> returns the child one slot to the left, 100 and 101.
  Off the stored keys (5, 15, 25) it returns the children the claim names.
\<close>

theorem IP_Lookup_on_stored_key:
  "IP_Lookup 10 \<lparr>ip_page_id = 1, ip_parent_page_id = - 1, ip_size = 3, ip_max_size = 4,
       ip_array = [(0::int, 100), (10, 101), (20, 102), (0, 0)]\<rparr> = Inr 100 \<and>
   IP_Lookup 20 \<lparr>ip_page_id = 1, ip_parent_page_id = - 1, ip_size = 3, ip_max_size = 4,
       ip_array = [(0::int, 100), (10, 101), (20, 102), (0, 0)]\<rparr> = Inr 101 \<and>
   map (\<lambda>k. IP_Lookup k \<lparr>ip_page_id = 1, ip_parent_page_id = - 1, ip_size = 3, ip_max_size = 4,
       ip_array = [(0::int, 100), (10, 101), (20, 102), (0, 0)]\<rparr>) [5, 15, 25]
     = [Inr 100, Inr 101, Inr 102]"
  by code_simp

subsection \<open>The leaf lookup never reports absence\<close>

lemma bs_loop_range:
  "bs_loop arr key start end = Inr s \<Longrightarrow> start \<le> s \<and> (s = start \<or> s \<le> int (length arr))"
proof (induction arr key start "end" arbitrary: s rule: bs_loop.induct)
  case (1 arr key start ende)
  let ?mid = "start + (ende - start) div 2"
  show ?case
  proof (cases "start < ende")
    case False
    with "1.prems" show ?thesis by (simp add: bs_loop.simps[of arr key start ende])
  next
    case True
    then have mid: "start \<le> ?mid" by simp
    from "1.prems" True obtain m where rdm: "rd arr ?mid = Inr m"
      by (subst (asm) bs_loop.simps) (auto simp: Let_def split: sum.splits)
    then have inb: "0 \<le> ?mid" "?mid < int (length arr)"
      by (auto simp: rd_def split: if_splits)
    show ?thesis
    proof (cases "fst m < key")
      case lt: True
      with "1.prems" True rdm have "bs_loop arr key (?mid + 1) ende = Inr s"
        by (subst (asm) bs_loop.simps) (simp add: Let_def)
      from "1.IH"(1)[OF True refl rdm lt this] mid inb show ?thesis by auto
    next
      case nlt: False
      show ?thesis
      proof (cases "key < fst m")
        case gt: True
        with "1.prems" True rdm nlt have "bs_loop arr key start ?mid = Inr s"
          by (subst (asm) bs_loop.simps) (simp add: Let_def)
        from "1.IH"(2)[OF True refl rdm nlt gt this] show ?thesis by auto
      next
        case False
        with "1.prems" True rdm nlt have "s = ?mid"
          by (subst (asm) bs_loop.simps) (simp add: Let_def)
        with mid inb show ?thesis by auto
      qed
    qed
  qed
qed

lemma to_int_not_minus_one:
  assumes "1 \<le> s" and "s < 4294967295"
  shows "to_int s \<noteq> - 1"
proof -
  from assms have "s mod 4294967296 = s" by simp
  with assms show ?thesis by (simp add: to_int_def Let_def)
qed

lemma BinarySearch_not_minus_one:
  assumes "length arr < 4294967295"
  shows "BinarySearch arr sz key \<noteq> Inr (- 1)"
proof
  assume a: "BinarySearch arr sz key = Inr (- 1)"
  then obtain s where s: "bs_loop arr key 1 ((sz - 1) mod 18446744073709551616) = Inr s"
    and t: "to_int s = - 1"
    by (cases "bs_loop arr key 1 ((sz - 1) mod 18446744073709551616)")
       (auto simp: BinarySearch_def)
  from bs_loop_range[OF s] assms have "1 \<le> s" "s < 4294967295" by auto
  from to_int_not_minus_one[OF this] t show False by simp
qed

lemma Leaf_Lookup_never_absent:
  assumes "length (lp_array p) < 4294967295"
  shows "Leaf_Lookup key p \<noteq> Inr None"
proof
  assume a: "Leaf_Lookup key p = Inr None"
  show False
  proof (cases "BinarySearch (lp_array p) (lp_size p) key")
    case (Inl e)
    with a show False by (simp add: Leaf_Lookup_def bindf_def)
  next
    case (Inr index)
    with BinarySearch_not_minus_one[OF assms, of "lp_size p" key] have "index \<noteq> - 1" by auto
    with a Inr show False
      by (auto simp: Leaf_Lookup_def bindf_def split: sum.splits)
  qed
qed


subsection \<open>Leaf pages\<close>

text \<open>
  Whatever the two leaves hold, a \<open>MoveAllTo\<close> that returns has left the slots of the
  recipient as they were. The sizes and the next-page id are as the contract says.
\<close>

lemma Leaf_MoveAllTo_effect:
  assumes "Leaf_MoveAllTo p r = Inr (p', r')"
  shows "lp_array r' = lp_array r \<and> lp_size p' = 0 \<and> lp_size r' = lp_size r + lp_size p \<and>
         lp_next_page_id r' = lp_next_page_id p"
proof -
  from assms obtain items' where
    "memcpy (lp_array p) 0 (lp_array r) (lp_size r) (lp_size p) = Inr items'"
    and "p' = p\<lparr>lp_array := items', lp_size := lp_size p - lp_size p\<rparr>"
    and "r' = r\<lparr>lp_size := lp_size r + lp_size p, lp_next_page_id := lp_next_page_id p\<rparr>"
    by (auto simp: Leaf_MoveAllTo_def Leaf_CopyAllFrom_def Let_def bindf_def split: sum.splits)
  then show ?thesis by simp
qed

text \<open>
  Whatever the key, a \<open>RemoveAndDeleteRecord\<close> that returns gives the size the leaf had
  before, and has lowered the size by one (on a frame of fewer than \<open>2^32 - 1\<close> slots):
  it is never a no-op.
\<close>

lemma RemoveAndDeleteRecord_effect:
  assumes short: "length (lp_array p) < 4294967295"
    and r: "RemoveAndDeleteRecord key p = Inr (n, p')"
  shows "n = lp_size p \<and> lp_size p' = lp_size p - 1"
proof -
  from r obtain index where bs: "BinarySearch (lp_array p) (lp_size p) key = Inr index"
    by (cases "BinarySearch (lp_array p) (lp_size p) key")
       (auto simp: RemoveAndDeleteRecord_def Let_def bindf_def)
  with BinarySearch_not_minus_one[OF short, of "lp_size p" key] have ni: "index \<noteq> - 1" by auto
  from r bs ni show ?thesis
    by (auto simp: RemoveAndDeleteRecord_def Let_def bindf_def split: sum.splits)
qed

text \<open>
  Claim C6 at its failing input. The node holds (3, c), (4, d) and points to the leaf 9;
  the recipient holds (1, a), (2, b) and has two stale slots (0, z) behind them. After
  \<open>MoveAllTo\<close> the sizes are 0 and 4 and the recipient points to the leaf 9, as the claim
  says, but the recipient's slots are unchanged: its entries are (1, a), (2, b), (0, z),
  (0, z), not the entries of the node appended. The copy went from the recipient's stale
  slots into the node.
\<close>

theorem Leaf_MoveAllTo_copies_backwards:
  "Leaf_MoveAllTo
     \<lparr>lp_page_id = 3, lp_parent_page_id = 1, lp_size = 2, lp_max_size = 4, lp_next_page_id = 9,
      lp_array = [(3::int, ''c''), (4, ''d''), (0, ''y''), (0, ''y'')]\<rparr>
     \<lparr>lp_page_id = 2, lp_parent_page_id = 1, lp_size = 2, lp_max_size = 4, lp_next_page_id = 3,
      lp_array = [(1::int, ''a''), (2, ''b''), (0, ''z''), (0, ''z'')]\<rparr>
   = Inr (\<lparr>lp_page_id = 3, lp_parent_page_id = 1, lp_size = 0, lp_max_size = 4, lp_next_page_id = 9,
            lp_array = [(0, ''z''), (0, ''z''), (0, ''y''), (0, ''y'')]\<rparr>,
          \<lparr>lp_page_id = 2, lp_parent_page_id = 1, lp_size = 4, lp_max_size = 4, lp_next_page_id = 9,
            lp_array = [(1, ''a''), (2, ''b''), (0, ''z''), (0, ''z'')]\<rparr>) \<and>
   leaf_entries \<lparr>lp_page_id = 2, lp_parent_page_id = 1, lp_size = 4, lp_max_size = 4, lp_next_page_id = 9,
            lp_array = [(1::int, ''a''), (2, ''b''), (0, ''z''), (0, ''z'')]\<rparr>
     \<noteq> [(1, ''a''), (2, ''b''), (3, ''c''), (4, ''d'')]"
  by code_simp

section \<open>B+Tree index: proofs\<close>

subsection \<open>What the descent and the removal leave unchanged\<close>

lemma FetchPage_pages: "bp_pages (snd (FetchPage pid bp)) = bp_pages bp"
  by (simp add: FetchPage_def split: option.splits)

lemma UnpinPage_pages: "bp_pages (snd (UnpinPage pid d bp)) = bp_pages bp"
  by (simp add: UnpinPage_def)

lemma get_page_cong: "bp_pages bp' = bp_pages bp \<Longrightarrow> get_page bp' pid = get_page bp pid"
  by (simp add: get_page_def)

lemma find_loop_pages:
  "find_loop fuel key lm bt pid nn bp = Some (Inr (l, bp')) \<Longrightarrow> bp_pages bp' = bp_pages bp"
proof (induction fuel arbitrary: bt pid nn bp)
  case 0
  then show ?case
    by (auto split: if_splits sum.splits)
next
  case (Suc fuel)
  show ?case
  proof (cases "\<not> nn")
    case True
    with Suc.prems show ?thesis by simp
  next
    case False
    then have nn: nn by simp
    from Suc.prems nn obtain leaf where lf: "is_leaf bp bt = Inr leaf"
      by (cases "is_leaf bp bt") auto
    show ?thesis
    proof (cases leaf)
      case True
      with Suc.prems nn lf show ?thesis by simp
    next
      case nl: False
      from Suc.prems nn lf nl obtain ip where ip: "the_internal bp pid = Inr ip"
        by (cases "the_internal bp pid") auto
      let ?c = "if lm then IP_ValueAt ip 0 else IP_Lookup key ip"
      from Suc.prems nn lf nl ip obtain child where ch: "?c = Inr child"
        by (cases ?c) auto
      let ?bp1 = "snd (UnpinPage pid False bp)"
      obtain pg bp2 where f: "FetchPage child ?bp1 = (pg, bp2)" by (cases "FetchPage child ?bp1")
      from Suc.prems nn lf nl ip ch f
      have "find_loop fuel key lm pid child (pg \<noteq> None) bp2 = Some (Inr (l, bp'))"
        by (simp split: if_splits)
      from Suc.IH[OF this] have "bp_pages bp' = bp_pages bp2" .
      also have "bp_pages bp2 = bp_pages ?bp1" using FetchPage_pages[of child ?bp1] f by simp
      also have "\<dots> = bp_pages bp" by (rule UnpinPage_pages)
      finally show ?thesis .
    qed
  qed
qed

lemma FindLeafPage_pages:
  assumes "FindLeafPage fuel key lm t = Some (Inr (l, t'))"
  shows "bp_pages (buffer_pool_manager t') = bp_pages (buffer_pool_manager t) \<and>
         root_page_id t' = root_page_id t \<and> index_name t' = index_name t"
proof -
  obtain pg bp1 where f: "FetchPage (root_page_id t) (buffer_pool_manager t) = (pg, bp1)"
    by (cases "FetchPage (root_page_id t) (buffer_pool_manager t)")
  from assms f obtain n where pg: "pg = Some n"
    by (cases pg) (auto simp: FindLeafPage_def Let_def)
  from assms f pg have m:
    "map_option (map_sum id (\<lambda>(leaf, bp). (leaf, t\<lparr>buffer_pool_manager := bp\<rparr>)))
       (find_loop fuel key lm (root_page_id t) (root_page_id t) True bp1) = Some (Inr (l, t'))"
    by (simp add: FindLeafPage_def Let_def del: find_loop.simps)
  then obtain z where z: "find_loop fuel key lm (root_page_id t) (root_page_id t) True bp1 = Some z"
    and mz: "map_sum id (\<lambda>(leaf, bp). (leaf, t\<lparr>buffer_pool_manager := bp\<rparr>)) z = Inr (l, t')"
    by (cases "find_loop fuel key lm (root_page_id t) (root_page_id t) True bp1")
       (simp_all del: find_loop.simps)
  from mz obtain bp where zb: "z = Inr (l, bp)" and t': "t' = t\<lparr>buffer_pool_manager := bp\<rparr>"
    by (cases z) auto
  from z zb have
    fl: "find_loop fuel key lm (root_page_id t) (root_page_id t) True bp1 = Some (Inr (l, bp))"
    by simp
  from find_loop_pages[OF fl] FetchPage_pages[of "root_page_id t" "buffer_pool_manager t"] f t'
  show ?thesis by simp
qed

lemma BPT_Remove_changes_no_page:
  assumes "BPT_Remove fuel key t = Some (Inr t')"
  shows "bp_pages (buffer_pool_manager t') = bp_pages (buffer_pool_manager t) \<and>
         root_page_id t' = root_page_id t"
proof (cases "IsEmpty t")
  case True
  with assms show ?thesis by (simp add: BPT_Remove_def)
next
  case False
  with assms obtain l t1 where f: "FindLeafPage fuel key False t = Some (Inr (l, t1))"
    and t': "t' = t1"
    by (auto simp: BPT_Remove_def CoalesceOrRedistribute_def
             split: option.splits sum.splits prod.splits if_splits)
  from FindLeafPage_pages[OF f] t' show ?thesis by simp
qed

lemma InsertIntoLeaf_iip:
  assumes short: "\<And>pid l. get_page (buffer_pool_manager t) pid = Some (LeafNode l)
                    \<Longrightarrow> length (lp_array l) < 4294967295"
  shows "InsertIntoLeaf iip fuel key val t = InsertIntoLeaf iip' fuel key val t"
proof (cases "FindLeafPage fuel key False t")
  case None
  then show ?thesis by (simp add: InsertIntoLeaf_def)
next
  case (Some r)
  show ?thesis
  proof (cases r)
    case (Inl e)
    with Some show ?thesis by (simp add: InsertIntoLeaf_def)
  next
    case (Inr x)
    obtain leaf t1 where x: "x = (leaf, t1)" by (cases x)
    with Some Inr have f: "FindLeafPage fuel key False t = Some (Inr (leaf, t1))" by simp
    from FindLeafPage_pages[OF f]
    have pages: "bp_pages (buffer_pool_manager t1) = bp_pages (buffer_pool_manager t)" by simp
    show ?thesis
    proof (cases "the_leaf (buffer_pool_manager t1) leaf")
      case (Inl e)
      with f show ?thesis by (simp add: InsertIntoLeaf_def bindf_def)
    next
      case lp: (Inr lp)
      then have "get_page (buffer_pool_manager t1) leaf = Some (LeafNode lp)"
        by (auto simp: the_leaf_def split: option.splits node.splits)
      with pages have "get_page (buffer_pool_manager t) leaf = Some (LeafNode lp)"
        by (simp add: get_page_def)
      from short[OF this] have "Leaf_Lookup key lp \<noteq> Inr None"
        by (rule Leaf_Lookup_never_absent)
      then consider e where "Leaf_Lookup key lp = Inl e" | w where "Leaf_Lookup key lp = Inr (Some w)"
        by (cases "Leaf_Lookup key lp") auto
      then show ?thesis
      proof cases
        case 1
        with f lp show ?thesis by (simp add: InsertIntoLeaf_def bindf_def)
      next
        case 2
        with f lp show ?thesis by (simp add: InsertIntoLeaf_def bindf_def)
      qed
    qed
  qed
qed

lemma BPT_Insert_iip:
  assumes "\<And>pid l. get_page (buffer_pool_manager t) pid = Some (LeafNode l)
                    \<Longrightarrow> length (lp_array l) < 4294967295"
  shows "BPT_Insert iip fuel key val t = BPT_Insert iip' fuel key val t"
  using InsertIntoLeaf_iip[OF assms] by (simp add: BPT_Insert_def)

subsection \<open>The first insert and the lookup after it\<close>

lemma bs_loop_single: "bs_loop arr key 1 0 = Inr 1"
  by (subst bs_loop.simps) simp

lemma Leaf_Lookup_size_one:
  assumes "2 \<le> length (lp_array p)" and "lp_size p = 1"
  shows "Leaf_Lookup key p = Inr (Some (snd (lp_array p ! 1)))"
  using assms
  by (simp add: Leaf_Lookup_def BinarySearch_def bs_loop_single to_int_def bindf_def rd_def)

lemma first_Insert:
  assumes "2 \<le> length raw"
  shows "BPT_Insert iip fuel key val (BPlusTree_new name raw) =
     Some (Inr (True,
       \<lparr>index_name = name, root_page_id = 1,
        buffer_pool_manager =
          \<lparr>bp_pages =
             [(0, HeaderNode [(name, 1)]),
              (1, LeafNode \<lparr>lp_page_id = 1, lp_parent_page_id = - 1, lp_size = 1,
                    lp_max_size = int (length raw), lp_next_page_id = - 1,
                    lp_array = raw[0 := (key, val)]\<rparr>)],
           bp_pin_count = [(1, 0), (0, 0)], bp_next_page_id = 2,
           bp_raw = raw, bp_fetched = 2, bp_unpinned = 2\<rparr>\<rparr>))"
  using assms
  by (simp add: BPT_Insert_def IsEmpty_def BPlusTree_new_def INVALID_PAGE_ID_def HEADER_PAGE_ID_def
      StartNewTree_def NewPage_def pool_init_def UpdateRootPageId_def FetchPage_def get_page_def
      pin_count_def set_page_def UnpinPage_def InsertRecord_def Leaf_Init_def Leaf_Insert_def
      bindf_def wr_def Let_def) auto

lemma GetValue_after_first_Insert:
  assumes "2 \<le> length raw"
  shows "values_of (GetValue fuel key []
       \<lparr>index_name = name, root_page_id = 1,
        buffer_pool_manager =
          \<lparr>bp_pages =
             [(0, HeaderNode [(name, 1)]),
              (1, LeafNode \<lparr>lp_page_id = 1, lp_parent_page_id = - 1, lp_size = 1,
                    lp_max_size = int (length raw), lp_next_page_id = - 1,
                    lp_array = raw[0 := (key, val)]\<rparr>)],
           bp_pin_count = [(1, 0), (0, 0)], bp_next_page_id = 2,
           bp_raw = raw, bp_fetched = 2, bp_unpinned = 2\<rparr>\<rparr>)
     = Some (True, [snd (raw ! 1)])"
proof -
  let ?leaf = "\<lparr>lp_page_id = 1, lp_parent_page_id = - 1, lp_size = 1,
                    lp_max_size = int (length raw), lp_next_page_id = - 1,
                    lp_array = raw[0 := (key, val)]\<rparr>"
  have lk: "Leaf_Lookup key ?leaf = Inr (Some (snd (raw ! 1)))"
    using Leaf_Lookup_size_one[of ?leaf key] assms by simp
  show ?thesis
    by (simp add: values_of_def GetValue_def FindLeafPage_def FetchPage_def get_page_def
        pin_count_def is_leaf_def the_leaf_def bindf_def lk Let_def UnpinPage_def)
qed

subsection \<open>Pins on a tree whose root is a leaf\<close>

text \<open>
  The index never splits a leaf (see \<open>InsertIntoLeaf_iip\<close>), so the trees it builds have a
  leaf as root. On such a tree every \<open>GetValue\<close> that finds a value, every \<open>Insert\<close> and
  every \<open>Remove\<close> returns with one more pin on the root than it started with.
\<close>

lemma map_of_al_update: "map_of (al_update k v xs) = (map_of xs)(k \<mapsto> v)"
  by (induction xs) auto

lemma pin_count_fetch:
  "get_page bp pid = Some n \<Longrightarrow>
     pin_count (snd (FetchPage pid bp)) q = (if q = pid then pin_count bp pid + 1 else pin_count bp q)"
  by (simp add: FetchPage_def pin_count_def map_of_al_update)

lemma pins_held_fetch:
  "get_page bp pid = Some n \<Longrightarrow> pins_held (snd (FetchPage pid bp)) = pins_held bp + 1"
  by (simp add: FetchPage_def pins_held_def)

lemma get_page_fetch: "get_page (snd (FetchPage pid bp)) q = get_page bp q"
  by (simp add: FetchPage_def get_page_def split: option.splits)

lemma fst_fetch: "fst (FetchPage pid bp) = get_page bp pid"
  by (simp add: FetchPage_def split: option.splits)

lemma FindLeafPage_leaf_root:
  assumes "get_page (buffer_pool_manager t) (root_page_id t) = Some (LeafNode lp)"
  shows "FindLeafPage fuel key lm t =
           Some (Inr (root_page_id t,
                      t\<lparr>buffer_pool_manager :=
                           snd (FetchPage (root_page_id t) (buffer_pool_manager t))\<rparr>))"
proof -
  obtain pg bp1 where f: "FetchPage (root_page_id t) (buffer_pool_manager t) = (pg, bp1)"
    by (cases "FetchPage (root_page_id t) (buffer_pool_manager t)")
  have pg: "pg = Some (LeafNode lp)"
    using assms fst_fetch[of "root_page_id t" "buffer_pool_manager t"] f by simp
  have "get_page bp1 (root_page_id t) = Some (LeafNode lp)"
    using assms get_page_fetch[of "root_page_id t" "buffer_pool_manager t" "root_page_id t"] f
    by simp
  then have "is_leaf bp1 (root_page_id t) = Inr True"
    by (simp add: is_leaf_def)
  then have "find_loop fuel key lm (root_page_id t) (root_page_id t) True bp1
               = Some (Inr (root_page_id t, bp1))"
    by (cases fuel) simp_all
  with f pg show ?thesis by (simp add: FindLeafPage_def Let_def del: find_loop.simps)
qed

lemma GetValue_leaf_root:
  assumes root: "get_page (buffer_pool_manager t) (root_page_id t) = Some (LeafNode lp)"
    and pid: "lp_page_id lp = root_page_id t"
    and lk: "Leaf_Lookup key lp = Inr (Some v)"
  shows "\<exists>t'. GetValue fuel key res t = Some (Inr (True, res @ [v], t')) \<and>
              pins_held (buffer_pool_manager t') = pins_held (buffer_pool_manager t) + 1 \<and>
              pin_count (buffer_pool_manager t') (root_page_id t)
                = pin_count (buffer_pool_manager t) (root_page_id t) + 1"
proof -
  let ?r = "root_page_id t"
  let ?bp0 = "snd (FetchPage ?r (buffer_pool_manager t))"
  let ?t0 = "t\<lparr>buffer_pool_manager := ?bp0\<rparr>"
  let ?bp1 = "snd (FetchPage ?r ?bp0)"
  let ?t1 = "?t0\<lparr>buffer_pool_manager := ?bp1\<rparr>"
  let ?bp2 = "snd (UnpinPage ?r False ?bp1)"
  have g0: "get_page ?bp0 ?r = Some (LeafNode lp)" using root by (simp add: get_page_fetch)
  have g1: "get_page ?bp1 ?r = Some (LeafNode lp)" using g0 by (simp add: get_page_fetch)
  have fl: "FindLeafPage fuel key False ?t0 = Some (Inr (?r, ?t1))"
    using FindLeafPage_leaf_root[of ?t0 lp fuel key False] g0 by simp
  have tl: "the_leaf ?bp1 ?r = Inr lp" using g1 by (simp add: the_leaf_def)
  have gv: "GetValue fuel key res t =
              Some (Inr (True, res @ [v], ?t1\<lparr>buffer_pool_manager := ?bp2\<rparr>))"
    using fl tl lk pid by (simp add: GetValue_def Let_def bindf_def)
  have pc1: "pin_count ?bp1 ?r = pin_count (buffer_pool_manager t) ?r + 2"
    using pin_count_fetch[OF root, of ?r] pin_count_fetch[OF g0, of ?r] by simp
  have ph1: "pins_held ?bp1 = pins_held (buffer_pool_manager t) + 2"
    using pins_held_fetch[OF root] pins_held_fetch[OF g0] by simp
  have "pins_held ?bp2 = pins_held (buffer_pool_manager t) + 1"
    using pc1 ph1 by (simp add: UnpinPage_def pins_held_def)
  moreover have "pin_count ?bp2 ?r = pin_count (buffer_pool_manager t) ?r + 1"
    using pc1 by (simp add: UnpinPage_def pin_count_def map_of_al_update)
  ultimately show ?thesis using gv by simp
qed

lemma InsertIntoLeaf_leaf_root:
  assumes root: "get_page (buffer_pool_manager t) (root_page_id t) = Some (LeafNode lp)"
    and lk: "Leaf_Lookup key lp = Inr (Some w)"
  shows "\<exists>t'. InsertIntoLeaf iip fuel key val t = Some (Inr (False, t')) \<and>
              pins_held (buffer_pool_manager t') = pins_held (buffer_pool_manager t) + 1 \<and>
              pin_count (buffer_pool_manager t') (root_page_id t)
                = pin_count (buffer_pool_manager t) (root_page_id t) + 1 \<and>
              bp_pages (buffer_pool_manager t') = bp_pages (buffer_pool_manager t)"
proof -
  let ?r = "root_page_id t"
  let ?bp1 = "snd (FetchPage ?r (buffer_pool_manager t))"
  let ?t1 = "t\<lparr>buffer_pool_manager := ?bp1\<rparr>"
  have fl: "FindLeafPage fuel key False t = Some (Inr (?r, ?t1))"
    by (rule FindLeafPage_leaf_root[OF root])
  have tl: "the_leaf ?bp1 ?r = Inr lp" using root by (simp add: the_leaf_def get_page_fetch)
  have "InsertIntoLeaf iip fuel key val t = Some (Inr (False, ?t1))"
    using fl tl lk by (simp add: InsertIntoLeaf_def bindf_def)
  then show ?thesis
    using pins_held_fetch[OF root] pin_count_fetch[OF root, of ?r]
    by (simp add: FetchPage_def root)
qed

lemma BPT_Remove_leaf_root:
  assumes root: "get_page (buffer_pool_manager t) (root_page_id t) = Some (LeafNode lp)"
    and ne: "\<not> IsEmpty t"
  shows "\<exists>t'. BPT_Remove fuel key t = Some (Inr t') \<and>
              pins_held (buffer_pool_manager t') = pins_held (buffer_pool_manager t) + 1 \<and>
              pin_count (buffer_pool_manager t') (root_page_id t)
                = pin_count (buffer_pool_manager t) (root_page_id t) + 1 \<and>
              bp_pages (buffer_pool_manager t') = bp_pages (buffer_pool_manager t)"
proof -
  let ?r = "root_page_id t"
  let ?bp1 = "snd (FetchPage ?r (buffer_pool_manager t))"
  let ?t1 = "t\<lparr>buffer_pool_manager := ?bp1\<rparr>"
  have fl: "FindLeafPage fuel key False t = Some (Inr (?r, ?t1))"
    by (rule FindLeafPage_leaf_root[OF root])
  have g1: "get_page ?bp1 ?r = Some (LeafNode lp)" using root by (simp add: get_page_fetch)
  have "BPT_Remove fuel key t = Some (Inr ?t1)"
    using fl g1 ne by (simp add: BPT_Remove_def CoalesceOrRedistribute_def)
  then show ?thesis
    using pins_held_fetch[OF root] pin_count_fetch[OF root, of ?r]
    by (simp add: FetchPage_def root)
qed

subsection \<open>The claims about the index at their failing inputs\<close>

text \<open>
  Claim C1 at its failing input. The index starts empty on a pool whose new frames are
  zero-filled (four slots (0, 0)). \<open>Insert(5, 7)\<close> succeeds and builds the root leaf with
  the entry (5, 7). Then \<open>GetValue(5)\<close> returns the value 0 of the unused slot 1, not 7:
  \<open>BinarySearch\<close> starts at index 1, and the leaf's \<open>Lookup\<close> takes whatever index it
  returns. \<open>Insert(5, 8)\<close> returns \<open>false\<close> as the claim says, and so does the insert of
  the new key 6; \<open>GetValue(5)\<close> still returns 0.
\<close>

theorem Insert_then_GetValue_reads_stale_slot:
  "BPT_Insert iip 0 5 7 (BPlusTree_new ''idx'' [(0::int, 0::int), (0, 0), (0, 0), (0, 0)])
     = Some (Inr (True,
         \<lparr>index_name = ''idx'', root_page_id = 1,
          buffer_pool_manager =
            \<lparr>bp_pages =
               [(0, HeaderNode [(''idx'', 1)]),
                (1, LeafNode \<lparr>lp_page_id = 1, lp_parent_page_id = - 1, lp_size = 1, lp_max_size = 4,
                      lp_next_page_id = - 1, lp_array = [(5, 7), (0, 0), (0, 0), (0, 0)]\<rparr>)],
             bp_pin_count = [(1, 0), (0, 0)], bp_next_page_id = 2,
             bp_raw = [(0, 0), (0, 0), (0, 0), (0, 0)], bp_fetched = 2, bp_unpinned = 2\<rparr>\<rparr>)) \<and>
   values_of (GetValue 0 5 []
         \<lparr>index_name = ''idx'', root_page_id = 1,
          buffer_pool_manager =
            \<lparr>bp_pages =
               [(0, HeaderNode [(''idx'', 1)]),
                (1, LeafNode \<lparr>lp_page_id = 1, lp_parent_page_id = - 1, lp_size = 1, lp_max_size = 4,
                      lp_next_page_id = - 1, lp_array = [(5::int, 7::int), (0, 0), (0, 0), (0, 0)]\<rparr>)],
             bp_pin_count = [(1, 0), (0, 0)], bp_next_page_id = 2,
             bp_raw = [(0, 0), (0, 0), (0, 0), (0, 0)], bp_fetched = 2, bp_unpinned = 2\<rparr>\<rparr>)
     = Some (True, [0]) \<and>
   map_option (map_sum id fst) (BPT_Insert iip 0 5 8
         \<lparr>index_name = ''idx'', root_page_id = 1,
          buffer_pool_manager =
            \<lparr>bp_pages =
               [(0, HeaderNode [(''idx'', 1)]),
                (1, LeafNode \<lparr>lp_page_id = 1, lp_parent_page_id = - 1, lp_size = 1, lp_max_size = 4,
                      lp_next_page_id = - 1, lp_array = [(5::int, 7::int), (0, 0), (0, 0), (0, 0)]\<rparr>)],
             bp_pin_count = [(1, 0), (0, 0)], bp_next_page_id = 2,
             bp_raw = [(0, 0), (0, 0), (0, 0), (0, 0)], bp_fetched = 2, bp_unpinned = 2\<rparr>\<rparr>)
     = Some (Inr False) \<and>
   map_option (map_sum id fst) (BPT_Insert iip 0 6 8
         \<lparr>index_name = ''idx'', root_page_id = 1,
          buffer_pool_manager =
            \<lparr>bp_pages =
               [(0, HeaderNode [(''idx'', 1)]),
                (1, LeafNode \<lparr>lp_page_id = 1, lp_parent_page_id = - 1, lp_size = 1, lp_max_size = 4,
                      lp_next_page_id = - 1, lp_array = [(5::int, 7::int), (0, 0), (0, 0), (0, 0)]\<rparr>)],
             bp_pin_count = [(1, 0), (0, 0)], bp_next_page_id = 2,
             bp_raw = [(0, 0), (0, 0), (0, 0), (0, 0)], bp_fetched = 2, bp_unpinned = 2\<rparr>\<rparr>)
     = Some (Inr False) \<and>
   values_of (GetValue 0 5 []
         \<lparr>index_name = ''idx'', root_page_id = 1,
          buffer_pool_manager =
            \<lparr>bp_pages =
               [(0, HeaderNode [(''idx'', 1)]),
                (1, LeafNode \<lparr>lp_page_id = 1, lp_parent_page_id = - 1, lp_size = 1, lp_max_size = 4,
                      lp_next_page_id = - 1, lp_array = [(5::int, 7::int), (0, 0), (0, 0), (0, 0)]\<rparr>)],
             bp_pin_count = [(1, 1), (0, 0)], bp_next_page_id = 2,
             bp_raw = [(0, 0), (0, 0), (0, 0), (0, 0)], bp_fetched = 3, bp_unpinned = 2\<rparr>\<rparr>)
     = Some (True, [0])"
  by code_simp

text \<open>
  Claim C2 at its failing inputs. On the leaf with the entries (1, a), (2, b), (3, c),
  \<open>RemoveAndDeleteRecord(2)\<close> returns 3, the size before the call, and leaves the entries
  (1, a), (2, b): the key 2 is still there and the key 3 is gone. For the absent key 9 it
  returns 3 as well and drops the last entry, so it is no no-op. On the index that holds
  the key 5, \<open>Remove(5)\<close> leaves every page as it was (it does not call
  \<open>RemoveAndDeleteRecord\<close>), and \<open>GetValue(5)\<close> afterwards reports a value.
\<close>

theorem Remove_deletes_nothing:
  "RemoveAndDeleteRecord 2
     \<lparr>lp_page_id = 2, lp_parent_page_id = - 1, lp_size = 3, lp_max_size = 4, lp_next_page_id = - 1,
      lp_array = [(1::int, ''a''), (2, ''b''), (3, ''c''), (0, ''z'')]\<rparr>
   = Inr (3, \<lparr>lp_page_id = 2, lp_parent_page_id = - 1, lp_size = 2, lp_max_size = 4,
              lp_next_page_id = - 1,
              lp_array = [(1, ''a''), (2, ''b''), (2, ''b''), (0, ''z'')]\<rparr>) \<and>
   RemoveAndDeleteRecord 9
     \<lparr>lp_page_id = 2, lp_parent_page_id = - 1, lp_size = 3, lp_max_size = 4, lp_next_page_id = - 1,
      lp_array = [(1::int, ''a''), (2, ''b''), (3, ''c''), (0, ''z'')]\<rparr>
   = Inr (3, \<lparr>lp_page_id = 2, lp_parent_page_id = - 1, lp_size = 2, lp_max_size = 4,
              lp_next_page_id = - 1,
              lp_array = [(1, ''a''), (2, ''b''), (3, ''c''), (0, ''z'')]\<rparr>) \<and>
   BPT_Remove 0 5
         \<lparr>index_name = ''idx'', root_page_id = 1,
          buffer_pool_manager =
            \<lparr>bp_pages =
               [(0, HeaderNode [(''idx'', 1)]),
                (1, LeafNode \<lparr>lp_page_id = 1, lp_parent_page_id = - 1, lp_size = 1, lp_max_size = 4,
                      lp_next_page_id = - 1, lp_array = [(5::int, 7::int), (0, 0), (0, 0), (0, 0)]\<rparr>)],
             bp_pin_count = [(1, 0), (0, 0)], bp_next_page_id = 2,
             bp_raw = [(0, 0), (0, 0), (0, 0), (0, 0)], bp_fetched = 2, bp_unpinned = 2\<rparr>\<rparr>
     = Some (Inr
         \<lparr>index_name = ''idx'', root_page_id = 1,
          buffer_pool_manager =
            \<lparr>bp_pages =
               [(0, HeaderNode [(''idx'', 1)]),
                (1, LeafNode \<lparr>lp_page_id = 1, lp_parent_page_id = - 1, lp_size = 1, lp_max_size = 4,
                      lp_next_page_id = - 1, lp_array = [(5, 7), (0, 0), (0, 0), (0, 0)]\<rparr>)],
             bp_pin_count = [(1, 1), (0, 0)], bp_next_page_id = 2,
             bp_raw = [(0, 0), (0, 0), (0, 0), (0, 0)], bp_fetched = 3, bp_unpinned = 2\<rparr>\<rparr>) \<and>
   values_of (GetValue 0 5 []
         \<lparr>index_name = ''idx'', root_page_id = 1,
          buffer_pool_manager =
            \<lparr>bp_pages =
               [(0, HeaderNode [(''idx'', 1)]),
                (1, LeafNode \<lparr>lp_page_id = 1, lp_parent_page_id = - 1, lp_size = 1, lp_max_size = 4,
                      lp_next_page_id = - 1, lp_array = [(5::int, 7::int), (0, 0), (0, 0), (0, 0)]\<rparr>)],
             bp_pin_count = [(1, 1), (0, 0)], bp_next_page_id = 2,
             bp_raw = [(0, 0), (0, 0), (0, 0), (0, 0)], bp_fetched = 3, bp_unpinned = 2\<rparr>\<rparr>)
     = Some (True, [0])"
  by code_simp

text \<open>
  Claim C7 at its failing inputs. On the index whose root is the leaf with the key 5 and
  on which no pin is held, \<open>GetValue(5)\<close> fetches the root twice and unpins it once;
  \<open>Insert(5, 8)\<close> fetches the leaf and returns \<open>false\<close> without an unpin; \<open>Remove(5)\<close>
  fetches the leaf and never unpins it. Each of the three leaves one pin behind.
\<close>

theorem pins_left_behind:
  "pins_held (buffer_pool_manager
         \<lparr>index_name = ''idx'', root_page_id = 1,
          buffer_pool_manager =
            \<lparr>bp_pages =
               [(0, HeaderNode [(''idx'', 1)]),
                (1, LeafNode \<lparr>lp_page_id = 1, lp_parent_page_id = - 1, lp_size = 1, lp_max_size = 4,
                      lp_next_page_id = - 1, lp_array = [(5::int, 7::int), (0, 0), (0, 0), (0, 0)]\<rparr>)],
             bp_pin_count = [(1, 0), (0, 0)], bp_next_page_id = 2,
             bp_raw = [(0, 0), (0, 0), (0, 0), (0, 0)], bp_fetched = 2, bp_unpinned = 2\<rparr>\<rparr>) = 0 \<and>
   map_option (map_sum id (\<lambda>r. (fst r, pins_held (buffer_pool_manager (snd (snd r))),
                                   pin_count (buffer_pool_manager (snd (snd r))) 1)))
     (GetValue 0 5 []
         \<lparr>index_name = ''idx'', root_page_id = 1,
          buffer_pool_manager =
            \<lparr>bp_pages =
               [(0, HeaderNode [(''idx'', 1)]),
                (1, LeafNode \<lparr>lp_page_id = 1, lp_parent_page_id = - 1, lp_size = 1, lp_max_size = 4,
                      lp_next_page_id = - 1, lp_array = [(5::int, 7::int), (0, 0), (0, 0), (0, 0)]\<rparr>)],
             bp_pin_count = [(1, 0), (0, 0)], bp_next_page_id = 2,
             bp_raw = [(0, 0), (0, 0), (0, 0), (0, 0)], bp_fetched = 2, bp_unpinned = 2\<rparr>\<rparr>)
     = Some (Inr (True, 1, 1)) \<and>
   map_option (map_sum id (\<lambda>r. (fst r, pins_held (buffer_pool_manager (snd r)),
                                   pin_count (buffer_pool_manager (snd r)) 1)))
     (BPT_Insert iip 0 5 8
         \<lparr>index_name = ''idx'', root_page_id = 1,
          buffer_pool_manager =
            \<lparr>bp_pages =
               [(0, HeaderNode [(''idx'', 1)]),
                (1, LeafNode \<lparr>lp_page_id = 1, lp_parent_page_id = - 1, lp_size = 1, lp_max_size = 4,
                      lp_next_page_id = - 1, lp_array = [(5::int, 7::int), (0, 0), (0, 0), (0, 0)]\<rparr>)],
             bp_pin_count = [(1, 0), (0, 0)], bp_next_page_id = 2,
             bp_raw = [(0, 0), (0, 0), (0, 0), (0, 0)], bp_fetched = 2, bp_unpinned = 2\<rparr>\<rparr>)
     = Some (Inr (False, 1, 1)) \<and>
   map_option (map_sum id (\<lambda>t. (pins_held (buffer_pool_manager t),
                                   pin_count (buffer_pool_manager t) 1)))
     (BPT_Remove 0 5
         \<lparr>index_name = ''idx'', root_page_id = 1,
          buffer_pool_manager =
            \<lparr>bp_pages =
               [(0, HeaderNode [(''idx'', 1)]),
                (1, LeafNode \<lparr>lp_page_id = 1, lp_parent_page_id = - 1, lp_size = 1, lp_max_size = 4,
                      lp_next_page_id = - 1, lp_array = [(5::int, 7::int), (0, 0), (0, 0), (0, 0)]\<rparr>)],
             bp_pin_count = [(1, 0), (0, 0)], bp_next_page_id = 2,
             bp_raw = [(0, 0), (0, 0), (0, 0), (0, 0)], bp_fetched = 2, bp_unpinned = 2\<rparr>\<rparr>)
     = Some (Inr (1, 1))"
  by code_simp


end
